theory Spec2Isabelle
  imports Complex_Main "HOL-Library.Monad_Syntax"
begin

section \<open>Akima interpolation: the Python function \<open>interpolate\<close> of akima.py\<close>

text \<open>
  The development embeds the pure Python implementation (\<open>interpolate\<close>, exported as
  \<open>interpolate_py\<close>, akima.py lines 146 to 248). Values of type float64 are modelled by
  \<^typ>\<open>real\<close>: every statement below is about exact arithmetic, rounding is not modelled.
  The literal \<open>1e-9\<close> is the real number \<open>1 / 10 ^ 9\<close>.
\<close>

subsection \<open>Errors and arrays\<close>

text \<open>
  The exceptions the function can raise. \<open>NotImplementedError\<close> and \<open>ValueError\<close> carry the
  message of the source. \<open>NumpyError\<close> stands for an exception raised inside a NumPy
  primitive after validation (an index out of range, a reduction of an empty array, a shape
  mismatch in an indexed assignment).
\<close>

datatype error = NotImplementedError string | ValueError string | NumpyError

text \<open>
  A NumPy array after \<open>numpy.array(..., dtype=float64, copy=True)\<close>: its shape and its
  elements in row-major order (the number of elements is the product of the shape).
  \<open>array1\<close> builds the one-dimensional array of a list.
\<close>

record ndarray =
  shape :: "nat list"
  data :: "real list"

definition ndim :: "ndarray \<Rightarrow> nat" where
  "ndim a = length (shape a)"

definition array1 :: "real list \<Rightarrow> ndarray" where
  "array1 xs = \<lparr>shape = [length xs], data = xs\<rparr>"

text \<open>\<open>len(a)\<close> is the extent of the first axis (it is only called after \<open>ndim a = 1\<close> is known).\<close>

definition len :: "ndarray \<Rightarrow> nat" where
  "len a = (case shape a of [] \<Rightarrow> 0 | k # ks \<Rightarrow> k)"

subsection \<open>Indexing as Python and NumPy do it\<close>

text \<open>
  An index \<open>i\<close> into a sequence of length \<open>l\<close>: \<open>0 \<le> i < l\<close> is position \<open>i\<close>, \<open>- l \<le> i < 0\<close>
  counts from the end, everything else raises.
\<close>

definition norm_index :: "nat \<Rightarrow> int \<Rightarrow> nat option" where
  "norm_index l i =
     (if 0 \<le> i \<and> i < int l then Some (nat i)
      else if - int l \<le> i \<and> i < 0 then Some (nat (int l + i))
      else None)"

definition getitem :: "'a list \<Rightarrow> int \<Rightarrow> 'a option" where
  "getitem a i = map_option (\<lambda>k. a ! k) (norm_index (length a) i)"

text \<open>\<open>a[js]\<close> for an integer index array \<open>js\<close>: the elements at those positions.\<close>

fun take_idx :: "'a list \<Rightarrow> int list \<Rightarrow> 'a list option" where
  "take_idx a [] = Some []"
| "take_idx a (j # js) = do { v \<leftarrow> getitem a j; vs \<leftarrow> take_idx a js; Some (v # vs) }"

text \<open>\<open>a[js] = vs\<close>: the array after the indexed assignment.\<close>

fun put_idx :: "'a list \<Rightarrow> int list \<Rightarrow> 'a list \<Rightarrow> 'a list option" where
  "put_idx a [] [] = Some a"
| "put_idx a (j # js) (v # vs) = do { k \<leftarrow> norm_index (length a) j; put_idx (a[k := v]) js vs }"
| "put_idx a [] (v # vs) = None"
| "put_idx a (j # js) [] = None"

text \<open>\<open>a[lo:hi]\<close> for non-negative bounds; a slice never raises.\<close>

definition slice :: "'a list \<Rightarrow> nat \<Rightarrow> nat \<Rightarrow> 'a list" where
  "slice a lo hi = take (hi - lo) (drop lo a)"

subsection \<open>The NumPy primitives the function calls\<close>

text \<open>\<open>numpy.diff(a)\<close>: \<open>a[i+1] - a[i]\<close>.\<close>

definition diff :: "real list \<Rightarrow> real list" where
  "diff a = map2 (\<lambda>lo hi. hi - lo) a (tl a)"

text \<open>
  An elementwise binary operation on two arrays. After validation every use below is on
  arrays of equal length, where NumPy neither broadcasts nor raises.
\<close>

definition ew :: "(real \<Rightarrow> real \<Rightarrow> real) \<Rightarrow> real list \<Rightarrow> real list \<Rightarrow> real list" where
  "ew f a b = map2 f a b"

text \<open>\<open>numpy.max(a)\<close>; it raises on an empty array.\<close>

definition amax :: "real list \<Rightarrow> real option" where
  "amax a = (case a of [] \<Rightarrow> None | v # vs \<Rightarrow> Some (fold max vs v))"

text \<open>\<open>numpy.nonzero(flags)[0]\<close>: the positions where the flag is set, ascending.\<close>

definition nonzero :: "bool list \<Rightarrow> int list" where
  "nonzero flags = map int (filter (\<lambda>i. flags ! i) [0..<length flags])"

text \<open>
  \<open>numpy.digitize(xi, bins)\<close> for increasing \<open>bins\<close> (validation has established that \<open>x\<close>
  increases strictly) is \<open>searchsorted(bins, xi, side='right')\<close>, a binary search for each
  query: the interval \<open>[lo, hi)\<close> is halved until it is empty.
\<close>

function searchsorted_right :: "real list \<Rightarrow> real \<Rightarrow> nat \<Rightarrow> nat \<Rightarrow> nat" where
  "searchsorted_right a key lo hi =
     (if lo < hi then
        (let mid = lo + (hi - lo) div 2 in
         if key < a ! mid then searchsorted_right a key lo mid
         else searchsorted_right a key (mid + 1) hi)
      else lo)"
  by pat_completeness auto
termination
  by (relation "measure (\<lambda>(a, key, lo, hi). hi - lo)") auto

declare searchsorted_right.simps [simp del]

definition digitize :: "real list \<Rightarrow> real list \<Rightarrow> int list" where
  "digitize xi bins = map (\<lambda>q. int (searchsorted_right bins q 0 (length bins))) xi"

subsection \<open>The stages of \<open>interpolate\<close>\<close>

text \<open>Lines 223 to 229: the secant slopes \<open>m\<close> and the extended sequence \<open>m1\<close>.\<close>

definition secant_slopes :: "real list \<Rightarrow> real list \<Rightarrow> real list" where
  "secant_slopes dx y = ew (/) (diff y) dx"

definition extend_slopes :: "nat \<Rightarrow> real list \<Rightarrow> real list option" where
  "extend_slopes n m = do {
     m_0 \<leftarrow> getitem m 0;
     m_1 \<leftarrow> getitem m 1;
     let mm = 2 * m_0 - m_1;
     m_0 \<leftarrow> getitem m 0;
     let mmm = 2 * mm - m_0;
     m_n2 \<leftarrow> getitem m (int n - 2);
     m_n3 \<leftarrow> getitem m (int n - 3);
     let mp = 2 * m_n2 - m_n3;
     m_n2 \<leftarrow> getitem m (int n - 2);
     let mpp = 2 * mp - m_n2;
     Some ([mmm] @ [mm] @ m @ [mp] @ [mpp])
   }"

text \<open>Lines 231 to 234: the weights \<open>f1\<close>, \<open>f2\<close> and their sum \<open>f12\<close>.\<close>

definition combined_weights :: "nat \<Rightarrow> real list \<Rightarrow> real list \<times> real list \<times> real list" where
  "combined_weights n m1 =
     (let dm = map abs (diff m1);
          f1 = slice dm 2 (n + 2);
          f2 = slice dm 0 n;
          f12 = ew (+) f1 f2
      in (f1, f2, f12))"

text \<open>Line 236: the samples whose weight exceeds \<open>1e-9\<close> times the largest weight.\<close>

definition selected_ids :: "real list \<Rightarrow> int list option" where
  "selected_ids f12 = do {
     top \<leftarrow> amax f12;
     Some (nonzero (map (\<lambda>w. w > 1 / 10 ^ 9 * top) f12))
   }"

text \<open>
  Lines 237 to 239: the derivative \<open>b\<close> at every sample. In the source \<open>b\<close> is a view on
  \<open>m1[1 : n + 1]\<close>; the right-hand side of the indexed assignment is evaluated in full from the
  unchanged \<open>m1\<close> before the assignment writes, \<open>m1\<close> is not read afterwards, and \<open>m\<close> is
  a separate array (\<open>numpy.concatenate\<close> copies), so that the view is modelled by its value.
\<close>

definition derivatives :: "nat \<Rightarrow> real list \<Rightarrow> real list option" where
  "derivatives n m1 = do {
     let (f1, f2, f12) = combined_weights n m1;
     ids \<leftarrow> selected_ids f12;
     let b = slice m1 1 (n + 1);
     f1_ids \<leftarrow> take_idx f1 ids;
     m1_lo \<leftarrow> take_idx m1 (map (\<lambda>i. i + 1) ids);
     f2_ids \<leftarrow> take_idx f2 ids;
     m1_hi \<leftarrow> take_idx m1 (map (\<lambda>i. i + 2) ids);
     f12_ids \<leftarrow> take_idx f12 ids;
     put_idx b ids (ew (/) (ew (+) (ew (*) f1_ids m1_lo) (ew (*) f2_ids m1_hi)) f12_ids)
   }"

text \<open>Lines 240 and 241: the quadratic and cubic coefficients of every segment.\<close>

definition coeff_c :: "nat \<Rightarrow> real list \<Rightarrow> real list \<Rightarrow> real list \<Rightarrow> real list" where
  "coeff_c n m b dx =
     ew (/) (ew (-) (ew (-) (map (\<lambda>v. 3 * v) m) (map (\<lambda>v. 2 * v) (slice b 0 (n - 1))))
                    (slice b 1 n)) dx"

definition coeff_d :: "nat \<Rightarrow> real list \<Rightarrow> real list \<Rightarrow> real list \<Rightarrow> real list" where
  "coeff_d n m b dx =
     ew (/) (ew (-) (ew (+) (slice b 0 (n - 1)) (slice b 1 n)) (map (\<lambda>v. 2 * v) m))
            (map (\<lambda>v. v ^ 2) dx)"

text \<open>Lines 243 to 248: the segment of every query and Horner's scheme.\<close>

definition segment_index :: "nat \<Rightarrow> real list \<Rightarrow> real list \<Rightarrow> int list" where
  "segment_index n x xi =
     (let bins = digitize xi x;
          bins = map (\<lambda>k. min k (int n - 1) - 1) bins
      in slice bins 0 (length xi))"

definition evaluate ::
  "nat \<Rightarrow> real list \<Rightarrow> real list \<Rightarrow> real list \<Rightarrow> real list \<Rightarrow> real list \<Rightarrow> real list
     \<Rightarrow> real list option" where
  "evaluate n x y b c d xi = do {
     let bb = segment_index n x xi;
     x_bb \<leftarrow> take_idx x bb;
     let wj = ew (-) xi x_bb;
     d_bb \<leftarrow> take_idx d bb;
     c_bb \<leftarrow> take_idx c bb;
     b_bb \<leftarrow> take_idx b bb;
     y_bb \<leftarrow> take_idx y bb;
     Some (ew (+) (ew (*) (ew (+) (ew (*) (ew (+) (ew (*) wj d_bb) c_bb) wj) b_bb) wj) y_bb)
   }"

text \<open>Lines 223 to 248 together: everything after validation.\<close>

definition spline :: "nat \<Rightarrow> real list \<Rightarrow> real list \<Rightarrow> real list \<Rightarrow> real list option" where
  "spline n x y xi = do {
     let dx = diff x;
     let m = secant_slopes dx y;
     m1 \<leftarrow> extend_slopes n m;
     b \<leftarrow> derivatives n m1;
     let c = coeff_c n m b dx;
     let d = coeff_d n m b dx;
     evaluate n x y b c d xi
   }"

text \<open>
  The derivatives and coefficients of a sample set on their own: the values of \<open>b\<close>, \<open>c\<close> and
  \<open>d\<close> that \<open>spline\<close> computes before it evaluates (lemma \<open>spline_stages\<close>).
\<close>

definition sample_derivatives :: "real list \<Rightarrow> real list \<Rightarrow> real list option" where
  "sample_derivatives x y = do {
     m1 \<leftarrow> extend_slopes (length x) (secant_slopes (diff x) y);
     derivatives (length x) m1
   }"

definition sample_c :: "real list \<Rightarrow> real list \<Rightarrow> real list \<Rightarrow> real list" where
  "sample_c x y b = coeff_c (length x) (secant_slopes (diff x) y) b (diff x)"

definition sample_d :: "real list \<Rightarrow> real list \<Rightarrow> real list \<Rightarrow> real list" where
  "sample_d x y b = coeff_d (length x) (secant_slopes (diff x) y) b (diff x)"

text \<open>
  The function itself, with its keyword arguments \<open>axis\<close> (default \<open>-1\<close>) and \<open>out\<close>
  (default \<open>None\<close>). The checks are in the order of the source (lines 198 to 221).
\<close>

definition interpolate_py ::
  "ndarray \<Rightarrow> ndarray \<Rightarrow> ndarray \<Rightarrow> int \<Rightarrow> ndarray option \<Rightarrow> error + ndarray" where
  "interpolate_py x y xi axis out =
     (if axis \<noteq> - 1 \<or> out \<noteq> None \<or> ndim y \<noteq> 1 then
        Inl (NotImplementedError ''implemented in C extension module'')
      else if ndim x \<noteq> 1 \<or> ndim xi \<noteq> 1 then
        Inl (ValueError ''x-arrays must be one dimensional'')
      else
        let n = len x in
        if n < 3 then Inl (ValueError ''array too small'')
        else
          (case getitem (shape y) axis of
             None \<Rightarrow> Inl NumpyError
           | Some y_len \<Rightarrow>
               if n \<noteq> y_len then Inl (ValueError ''size of x-array must match data shape'')
               else if list_ex (\<lambda>v. v \<le> 0) (diff (data x)) then
                 Inl (ValueError ''x-axis not valid'')
               else
                 (case (getitem (data x) 0, getitem (data x) (- 1)) of
                    (Some x_first, Some x_last) \<Rightarrow>
                      if list_ex (\<lambda>q. q < x_first) (data xi)
                         \<or> list_ex (\<lambda>q. q > x_last) (data xi) then
                        Inl (ValueError ''interpolation x-axis out of bounds'')
                      else
                        (case spline n (data x) (data y) (data xi) of
                           Some r \<Rightarrow> Inr (array1 r)
                         | None \<Rightarrow> Inl NumpyError)
                  | _ \<Rightarrow> Inl NumpyError)))"

text \<open>The call \<open>interpolate(x, y, x_new)\<close> with the keyword arguments at their defaults.\<close>

definition interpolate :: "ndarray \<Rightarrow> ndarray \<Rightarrow> ndarray \<Rightarrow> error + ndarray" where
  "interpolate x y x_new = interpolate_py x y x_new (- 1) None"

subsection \<open>The specification's formulas\<close>

text \<open>
  The definitions of this subsection follow the words of the specification, not the code: the
  extended slopes, the differences \<open>dm\<close>, the combined weight and the derivative of sample
  \<open>i\<close> (sections 3 and 4.2), the segment of a query and Horner's scheme (section 4.4). The
  theorems compare them with what the code computes.
\<close>

definition claimed_m1 :: "real list \<Rightarrow> real list" where
  "claimed_m1 m =
     (let n = length m + 1;
          mm = 2 * m ! 0 - m ! 1;
          mmm = 2 * mm - m ! 0;
          mp = 2 * m ! (n - 2) - m ! (n - 3);
          mpp = 2 * mp - m ! (n - 2)
      in [mmm, mm] @ m @ [mp, mpp])"

definition claimed_dm :: "real list \<Rightarrow> nat \<Rightarrow> real" where
  "claimed_dm m1 j = \<bar>m1 ! (j + 1) - m1 ! j\<bar>"

definition claimed_weight :: "real list \<Rightarrow> nat \<Rightarrow> real" where
  "claimed_weight m1 i = claimed_dm m1 (i + 2) + claimed_dm m1 i"

definition claimed_b :: "nat \<Rightarrow> real list \<Rightarrow> nat \<Rightarrow> real" where
  "claimed_b n m1 i =
     (let f1 = claimed_dm m1 (i + 2); f2 = claimed_dm m1 i
      in if f1 + f2 > 1 / 10 ^ 9 * Max (claimed_weight m1 ` {0..<n})
         then (f1 * m1 ! (i + 1) + f2 * m1 ! (i + 2)) / (f1 + f2)
         else m1 ! (i + 1))"

definition claimed_segment :: "real list \<Rightarrow> real \<Rightarrow> nat" where
  "claimed_segment x q = min (Max {i \<in> {0..<length x}. x ! i \<le> q}) (length x - 2)"

definition claimed_value ::
  "real list \<Rightarrow> real list \<Rightarrow> real list \<Rightarrow> real list \<Rightarrow> real list \<Rightarrow> nat \<Rightarrow> real \<Rightarrow> real" where
  "claimed_value x y b c d k q =
     (let t = q - x ! k in ((d ! k * t + c ! k) * t + b ! k) * t + y ! k)"

definition segment_cubic :: "real \<Rightarrow> real \<Rightarrow> real \<Rightarrow> real \<Rightarrow> real \<Rightarrow> real" where
  "segment_cubic y_i b_i c_i d_i t = y_i + b_i * t + c_i * t ^ 2 + d_i * t ^ 3"

section \<open>Properties of the primitives\<close>

lemma length_diff: "length (diff a) = length a - 1"
  by (simp add: diff_def)

lemma nth_diff: "Suc i < length a \<Longrightarrow> diff a ! i = a ! Suc i - a ! i"
  by (simp add: diff_def nth_tl)

lemma length_ew: "length (ew f a b) = min (length a) (length b)"
  by (simp add: ew_def)

lemma nth_ew: "i < length a \<Longrightarrow> i < length b \<Longrightarrow> ew f a b ! i = f (a ! i) (b ! i)"
  by (simp add: ew_def)

lemma length_slice: "length (slice a lo hi) = min (hi - lo) (length a - lo)"
  by (simp add: slice_def)

lemma nth_slice: "lo + i < hi \<Longrightarrow> lo + i < length a \<Longrightarrow> slice a lo hi ! i = a ! (lo + i)"
  by (simp add: slice_def)

lemma slice_all: "length a \<le> hi \<Longrightarrow> slice a 0 hi = a"
  by (simp add: slice_def)

lemma norm_index_nat: "i < l \<Longrightarrow> norm_index l (int i) = Some i"
  by (simp add: norm_index_def)

lemma getitem_nat: "i < length a \<Longrightarrow> getitem a (int i) = Some (a ! i)"
  by (simp add: getitem_def norm_index_nat)

lemma getitem_last: "a \<noteq> [] \<Longrightarrow> getitem a (- 1) = Some (last a)"
  by (cases a rule: rev_cases) (auto simp: getitem_def norm_index_def nth_append)

lemma take_idx_nat:
  "\<forall>i \<in> set js. i < length a \<Longrightarrow> take_idx a (map int js) = Some (map (\<lambda>i. a ! i) js)"
  by (induction js) (simp_all add: getitem_nat)

lemma put_idx_nat:
  "\<forall>i \<in> set js. i < length a \<Longrightarrow>
   put_idx a (map int js) (map g js)
     = Some (map (\<lambda>i. if i \<in> set js then g i else a ! i) [0..<length a])"
proof (induction js arbitrary: a)
  case Nil
  then show ?case by (simp add: map_nth)
next
  case (Cons j js)
  have "put_idx a (map int (j # js)) (map g (j # js)) = put_idx (a[j := g j]) (map int js) (map g js)"
    using Cons.prems by (simp add: norm_index_nat)
  also have "\<dots> = Some (map (\<lambda>i. if i \<in> set js then g i else a[j := g j] ! i) [0..<length a])"
    using Cons.IH [of "a[j := g j]"] Cons.prems by simp
  also have "\<dots> = Some (map (\<lambda>i. if i \<in> set (j # js) then g i else a ! i) [0..<length a])"
    using Cons.prems by (auto simp: nth_list_update)
  finally show ?case .
qed

lemma amax_Max:
  assumes "a \<noteq> []"
  shows "amax a = Some (Max (set a))"
proof (cases a)
  case Nil
  then show ?thesis using assms by simp
next
  case (Cons v vs)
  then show ?thesis using Max.set_eq_fold [of v vs] by (simp add: amax_def)
qed

lemma nonzero_map: "nonzero (map P a) = map int (filter (\<lambda>i. P (a ! i)) [0..<length a])"
  by (auto simp: nonzero_def intro!: filter_cong)

subsection \<open>The binary search of \<open>digitize\<close>\<close>

lemma searchsorted_right_done: "\<not> lo < hi \<Longrightarrow> searchsorted_right a key lo hi = lo"
  using searchsorted_right.simps [of a key lo hi] by simp

lemma searchsorted_right_less:
  "lo < hi \<Longrightarrow> key < a ! (lo + (hi - lo) div 2) \<Longrightarrow>
   searchsorted_right a key lo hi = searchsorted_right a key lo (lo + (hi - lo) div 2)"
  using searchsorted_right.simps [of a key lo hi] by (simp only: Let_def if_True)

lemma searchsorted_right_geq:
  "lo < hi \<Longrightarrow> \<not> key < a ! (lo + (hi - lo) div 2) \<Longrightarrow>
   searchsorted_right a key lo hi = searchsorted_right a key (lo + (hi - lo) div 2 + 1) hi"
  using searchsorted_right.simps [of a key lo hi] by (simp only: Let_def if_True if_False)

lemma searchsorted_right_range:
  "lo \<le> hi \<Longrightarrow> lo \<le> searchsorted_right a key lo hi \<and> searchsorted_right a key lo hi \<le> hi"
proof (induction a key lo hi rule: searchsorted_right.induct)
  case (1 a key lo hi)
  show ?case
  proof (cases "lo < hi")
    case False
    with "1.prems" show ?thesis by (simp add: searchsorted_right_done)
  next
    case True
    define mid where "mid = lo + (hi - lo) div 2"
    have mid: "lo \<le> mid" "mid < hi" using True by (auto simp: mid_def)
    show ?thesis
    proof (cases "key < a ! mid")
      case less: True
      have "lo \<le> searchsorted_right a key lo mid \<and> searchsorted_right a key lo mid \<le> mid"
        using "1.IH"(1) [OF True mid_def less] mid by simp
      then show ?thesis
        using True less mid searchsorted_right_less [of lo hi key a] by (simp add: mid_def)
    next
      case geq: False
      have "mid + 1 \<le> searchsorted_right a key (mid + 1) hi
            \<and> searchsorted_right a key (mid + 1) hi \<le> hi"
        using "1.IH"(2) [OF True mid_def geq] mid by simp
      then show ?thesis
        using True geq mid searchsorted_right_geq [of lo hi key a] by (simp add: mid_def)
    qed
  qed
qed

lemma searchsorted_right_partition:
  assumes "sorted a" "hi \<le> length a" "lo \<le> hi"
    and "\<forall>i<lo. a ! i \<le> key"
    and "\<forall>i. hi \<le> i \<and> i < length a \<longrightarrow> key < a ! i"
  shows "(\<forall>i<searchsorted_right a key lo hi. a ! i \<le> key)
       \<and> (\<forall>i. searchsorted_right a key lo hi \<le> i \<and> i < length a \<longrightarrow> key < a ! i)"
  using assms
proof (induction a key lo hi rule: searchsorted_right.induct)
  case (1 a key lo hi)
  show ?case
  proof (cases "lo < hi")
    case False
    then have "searchsorted_right a key lo hi = lo" by (rule searchsorted_right_done)
    moreover from False "1.prems" have "lo = hi" by simp
    ultimately show ?thesis
      using "1.prems" by simp
  next
    case True
    define mid where "mid = lo + (hi - lo) div 2"
    have mid: "lo \<le> mid" "mid < hi" using True by (auto simp: mid_def)
    show ?thesis
    proof (cases "key < a ! mid")
      case less: True
      have above: "\<forall>i. mid \<le> i \<and> i < length a \<longrightarrow> key < a ! i"
      proof (intro allI impI)
        fix i assume "mid \<le> i \<and> i < length a"
        then have "a ! mid \<le> a ! i" using \<open>sorted a\<close> by (simp add: sorted_nth_mono)
        with less show "key < a ! i" by simp
      qed
      have "(\<forall>i<searchsorted_right a key lo mid. a ! i \<le> key)
          \<and> (\<forall>i. searchsorted_right a key lo mid \<le> i \<and> i < length a \<longrightarrow> key < a ! i)"
        using "1.IH"(1) [OF True mid_def less] "1.prems" mid above by simp
      then show ?thesis
        using True less searchsorted_right_less [of lo hi key a] by (simp add: mid_def)
    next
      case geq: False
      have below: "\<forall>i<mid + 1. a ! i \<le> key"
      proof (intro allI impI)
        fix i assume "i < mid + 1"
        then have "a ! i \<le> a ! mid"
          using \<open>sorted a\<close> mid "1.prems"(2) by (simp add: sorted_nth_mono)
        with geq show "a ! i \<le> key" by simp
      qed
      have "(\<forall>i<searchsorted_right a key (mid + 1) hi. a ! i \<le> key)
          \<and> (\<forall>i. searchsorted_right a key (mid + 1) hi \<le> i \<and> i < length a \<longrightarrow> key < a ! i)"
        using "1.IH"(2) [OF True mid_def geq] "1.prems" mid below by simp
      then show ?thesis
        using True geq searchsorted_right_geq [of lo hi key a] by (simp add: mid_def)
    qed
  qed
qed

text \<open>The number \<open>digitize\<close> returns for one query.\<close>

lemma digitize_partition:
  fixes a :: "real list" and key :: real
  assumes "sorted a"
  defines "r \<equiv> searchsorted_right a key 0 (length a)"
  shows "r \<le> length a" "\<And>i. i < length a \<Longrightarrow> a ! i \<le> key \<longleftrightarrow> i < r"
proof -
  show "r \<le> length a"
    using searchsorted_right_range [of 0 "length a" a key] by (simp add: r_def)
  have p: "(\<forall>i<r. a ! i \<le> key) \<and> (\<forall>i. r \<le> i \<and> i < length a \<longrightarrow> key < a ! i)"
    unfolding r_def using assms(1) by (intro searchsorted_right_partition) simp_all
  show "a ! i \<le> key \<longleftrightarrow> i < r" if "i < length a" for i
    using p that by (meson leD leI)
qed

section \<open>The stages in closed form\<close>

subsection \<open>Slopes and derivatives\<close>

lemma getitem_pos: "0 \<le> i \<Longrightarrow> nat i < length a \<Longrightarrow> getitem a i = Some (a ! nat i)"
  using getitem_nat [of "nat i" a] by simp

lemma length_secant_slopes:
  "length y = length x \<Longrightarrow> length (secant_slopes (diff x) y) = length x - 1"
  by (simp add: secant_slopes_def length_ew length_diff)

lemma nth_secant_slopes:
  "length y = length x \<Longrightarrow> Suc i < length x \<Longrightarrow>
   secant_slopes (diff x) y ! i = (y ! Suc i - y ! i) / (x ! Suc i - x ! i)"
  by (simp add: secant_slopes_def nth_ew length_diff nth_diff)

lemma extend_slopes_closed:
  assumes "length m = n - 1" "3 \<le> n"
  shows "extend_slopes n m = Some (claimed_m1 m)"
proof -
  have n: "length m + 1 = n" using assms by simp
  have "getitem m 0 = Some (m ! 0)" "getitem m 1 = Some (m ! 1)"
    "getitem m (int n - 2) = Some (m ! (n - 2))" "getitem m (int n - 3) = Some (m ! (n - 3))"
    using assms by (simp_all add: getitem_pos nat_diff_distrib)
  moreover have "length m - Suc 0 = n - 2" "length m - 2 = n - 3"
    using assms by simp_all
  ultimately show ?thesis
    by (simp add: extend_slopes_def claimed_m1_def Let_def)
qed

lemma length_claimed_m1: "length (claimed_m1 m) = length m + 4"
  by (simp add: claimed_m1_def Let_def)

lemma ew_map: "ew f (map g js) (map h js) = map (\<lambda>i. f (g i) (h i)) js"
  by (induction js) (simp_all add: ew_def)

lemma ew_map_left: "ew f js (map h js) = map (\<lambda>i. f i (h i)) js"
  using ew_map [of f "\<lambda>i. i" js h] by simp

lemma map_upt_eqI:
  "length a = n \<Longrightarrow> (\<And>i. i < n \<Longrightarrow> a ! i = g i) \<Longrightarrow> a = map g [0..<n]"
  by (auto simp: list_eq_iff_nth_eq)

lemma take_idx_shift1:
  "\<forall>i \<in> set js. i + 1 < length a \<Longrightarrow>
   take_idx a (map (\<lambda>i. i + 1) (map int js)) = Some (map (\<lambda>i. a ! (i + 1)) js)"
  by (induction js) (simp_all add: getitem_pos nat_add_distrib)

lemma take_idx_shift2:
  "\<forall>i \<in> set js. i + 2 < length a \<Longrightarrow>
   take_idx a (map (\<lambda>i. i + 2) (map int js)) = Some (map (\<lambda>i. a ! (i + 2)) js)"
  by (induction js) (simp_all add: getitem_pos nat_add_distrib)

lemma combined_weights_closed:
  assumes len: "length m1 = n + 3"
  shows "combined_weights n m1
           = (map (\<lambda>i. claimed_dm m1 (i + 2)) [0..<n], map (claimed_dm m1) [0..<n],
              map (claimed_weight m1) [0..<n])"
proof -
  define dm where "dm = map abs (diff m1)"
  define f1 where "f1 = slice dm 2 (n + 2)"
  define f2 where "f2 = slice dm 0 n"
  have dm_len: "length dm = n + 2"
    by (simp add: dm_def length_diff len)
  have dm_nth: "dm ! j = claimed_dm m1 j" if "j < n + 2" for j
    using that by (simp add: dm_def length_diff nth_diff len claimed_dm_def)
  have f1: "f1 = map (\<lambda>i. claimed_dm m1 (i + 2)) [0..<n]"
    by (rule map_upt_eqI) (simp_all add: f1_def length_slice nth_slice dm_len dm_nth add.commute)
  have f2: "f2 = map (claimed_dm m1) [0..<n]"
    by (rule map_upt_eqI) (simp_all add: f2_def length_slice nth_slice dm_len dm_nth)
  have f12: "ew (+) f1 f2 = map (claimed_weight m1) [0..<n]"
    unfolding f1 f2 ew_map claimed_weight_def ..
  have "combined_weights n m1 = (f1, f2, ew (+) f1 f2)"
    by (simp add: combined_weights_def Let_def dm_def f1_def f2_def)
  also have "\<dots> = (f1, f2, map (claimed_weight m1) [0..<n])"
    by (simp only: f12)
  also have "\<dots> = (map (\<lambda>i. claimed_dm m1 (i + 2)) [0..<n], map (claimed_dm m1) [0..<n],
              map (claimed_weight m1) [0..<n])"
    by (simp only: f1 f2)
  finally show ?thesis .
qed

lemma selected_ids_closed:
  assumes n: "0 < n"
  shows "selected_ids (map w [0..<n])
           = Some (map int (filter (\<lambda>i. w i > 1 / 10 ^ 9 * Max (w ` {0..<n})) [0..<n]))"
proof -
  have "map w [0..<n] \<noteq> []" using n by simp
  then have "amax (map w [0..<n]) = Some (Max (w ` {0..<n}))"
    by (simp add: amax_Max)
  moreover have "nonzero (map (\<lambda>v. v > 1 / 10 ^ 9 * Max (w ` {0..<n})) (map w [0..<n]))
      = map int (filter (\<lambda>i. w i > 1 / 10 ^ 9 * Max (w ` {0..<n})) [0..<n])"
    unfolding nonzero_map by (auto intro!: filter_cong)
  ultimately show ?thesis by (simp add: selected_ids_def)
qed

lemma derivatives_closed:
  assumes len: "length m1 = n + 3" and n: "0 < n"
  shows "derivatives n m1 = Some (map (claimed_b n m1) [0..<n])"
proof -
  define f1 where "f1 = map (\<lambda>i. claimed_dm m1 (i + 2)) [0..<n]"
  define f2 where "f2 = map (claimed_dm m1) [0..<n]"
  define f12 where "f12 = map (claimed_weight m1) [0..<n]"
  define top where "top = Max (claimed_weight m1 ` {0..<n})"
  define js where "js = filter (\<lambda>i. claimed_weight m1 i > 1 / 10 ^ 9 * top) [0..<n]"
  define b where "b = slice m1 1 (n + 1)"
  define g where "g = (\<lambda>i. (claimed_dm m1 (i + 2) * m1 ! (i + 1) + claimed_dm m1 i * m1 ! (i + 2))
                           / claimed_weight m1 i)"
  have cw: "combined_weights n m1 = (f1, f2, f12)"
    unfolding f1_def f2_def f12_def using len by (rule combined_weights_closed)
  have ids: "selected_ids f12 = Some (map int js)"
    unfolding f12_def js_def top_def using n by (rule selected_ids_closed)
  have js: "\<forall>i \<in> set js. i < n" by (simp add: js_def)
  have b_len: "length b = n" by (simp add: b_def length_slice len)
  have b_nth: "b ! i = m1 ! (i + 1)" if "i < n" for i
    using that by (simp add: b_def nth_slice len)
  have t1: "take_idx f1 (map int js) = Some (map (\<lambda>i. claimed_dm m1 (i + 2)) js)"
    using js by (subst take_idx_nat) (auto simp: f1_def)
  have t2: "take_idx f2 (map int js) = Some (map (claimed_dm m1) js)"
    using js by (subst take_idx_nat) (auto simp: f2_def)
  have t12: "take_idx f12 (map int js) = Some (map (claimed_weight m1) js)"
    using js by (subst take_idx_nat) (auto simp: f12_def)
  have tlo: "take_idx m1 (map (\<lambda>i. i + 1) (map int js)) = Some (map (\<lambda>i. m1 ! (i + 1)) js)"
    using js by (intro take_idx_shift1) (auto simp: len)
  have thi: "take_idx m1 (map (\<lambda>i. i + 2) (map int js)) = Some (map (\<lambda>i. m1 ! (i + 2)) js)"
    using js by (intro take_idx_shift2) (auto simp: len)
  have "derivatives n m1 = put_idx b (map int js) (map g js)"
    unfolding derivatives_def cw Let_def prod.case ids bind.bind_lunit
    unfolding b_def [symmetric] t1 t2 t12 tlo thi bind.bind_lunit ew_map g_def ..
  also have "\<dots> = Some (map (\<lambda>i. if i \<in> set js then g i else b ! i) [0..<n])"
    using put_idx_nat [of js b g] js by (simp add: b_len)
  also have "map (\<lambda>i. if i \<in> set js then g i else b ! i) [0..<n] = map (claimed_b n m1) [0..<n]"
    by (rule map_cong)
      (auto simp: js_def g_def b_nth claimed_b_def top_def claimed_weight_def Let_def)
  finally show ?thesis .
qed

subsection \<open>Coefficients, cubic pieces and segments\<close>

lemma length_coeff_c:
  "length m = n - 1 \<Longrightarrow> length b = n \<Longrightarrow> length dx = n - 1 \<Longrightarrow> length (coeff_c n m b dx) = n - 1"
  by (simp add: coeff_c_def length_ew length_slice)

lemma length_coeff_d:
  "length m = n - 1 \<Longrightarrow> length b = n \<Longrightarrow> length dx = n - 1 \<Longrightarrow> length (coeff_d n m b dx) = n - 1"
  by (simp add: coeff_d_def length_ew length_slice)

lemma nth_coeff_c:
  "length m = n - 1 \<Longrightarrow> length b = n \<Longrightarrow> length dx = n - 1 \<Longrightarrow> Suc i < n \<Longrightarrow>
   coeff_c n m b dx ! i = (3 * m ! i - 2 * b ! i - b ! Suc i) / dx ! i"
  by (simp add: coeff_c_def nth_ew length_ew length_slice nth_slice)

lemma nth_coeff_d:
  "length m = n - 1 \<Longrightarrow> length b = n \<Longrightarrow> length dx = n - 1 \<Longrightarrow> Suc i < n \<Longrightarrow>
   coeff_d n m b dx ! i = (b ! i + b ! Suc i - 2 * m ! i) / (dx ! i) ^ 2"
  by (simp add: coeff_d_def nth_ew length_ew length_slice nth_slice)

lemma cubic_right_value:
  fixes dx :: real
  assumes "dx \<noteq> 0" "m = (y' - y) / dx"
    "c = (3 * m - 2 * b - b') / dx" "d = (b + b' - 2 * m) / dx ^ 2"
  shows "y + b * dx + c * dx ^ 2 + d * dx ^ 3 = y'"
proof -
  have "c * dx ^ 2 = (3 * m - 2 * b - b') * dx"
    using assms(1) by (simp add: assms(3) power2_eq_square)
  moreover have "d * dx ^ 3 = (b + b' - 2 * m) * dx"
    using assms(1) by (simp add: assms(4) power2_eq_square power3_eq_cube)
  moreover have "m * dx = y' - y"
    using assms(1) by (simp add: assms(2))
  ultimately show ?thesis by (simp add: algebra_simps)
qed

lemma cubic_right_slope:
  fixes dx :: real
  assumes "dx \<noteq> 0"
    "c = (3 * m - 2 * b - b') / dx" "d = (b + b' - 2 * m) / dx ^ 2"
  shows "b + 2 * c * dx + 3 * d * dx ^ 2 = b'"
proof -
  have "c * dx = 3 * m - 2 * b - b'"
    using assms(1) by (simp add: assms(2))
  moreover have "d * dx ^ 2 = b + b' - 2 * m"
    using assms(1) by (simp add: assms(3))
  ultimately show ?thesis by (simp add: algebra_simps)
qed

lemma cubic_derivative:
  fixes y b c d :: real
  shows "((\<lambda>t. y + b * t + c * t ^ 2 + d * t ^ 3) has_real_derivative (b + 2 * c * t + 3 * d * t ^ 2)) (at t)"
  by (auto intro!: derivative_eq_intros)

lemma strictly_increasing_diff:
  "list_ex (\<lambda>v. v \<le> 0) (diff x) \<longleftrightarrow> \<not> sorted_wrt (<) x"
proof -
  have "sorted_wrt (<) x \<longleftrightarrow> (\<forall>i. Suc i < length x \<longrightarrow> x ! i < x ! Suc i)"
    by (rule sorted_wrt_iff_nth_Suc_transp) (simp add: transp_on_def)
  also have "\<dots> \<longleftrightarrow> (\<forall>i < length (diff x). 0 < diff x ! i)"
    by (auto simp: length_diff nth_diff)
  also have "\<dots> \<longleftrightarrow> \<not> list_ex (\<lambda>v. v \<le> 0) (diff x)"
    by (auto simp: list_ex_length not_le)
  finally show ?thesis by simp
qed

lemma diff_positive:
  "sorted_wrt (<) x \<Longrightarrow> Suc i < length x \<Longrightarrow> 0 < diff x ! i"
  by (simp add: nth_diff sorted_wrt_nth_less)

lemma segment_as_claimed:
  assumes sorted: "sorted_wrt (<) x" and len: "2 \<le> length x" and low: "x ! 0 \<le> q"
  shows "min (int (searchsorted_right x q 0 (length x))) (int (length x) - 1) - 1
           = int (claimed_segment x q)"
    and "claimed_segment x q \<le> length x - 2"
    and "x ! claimed_segment x q \<le> q"
    and "q < x ! (length x - 1) \<Longrightarrow> q < x ! Suc (claimed_segment x q)"
proof -
  define r where "r = searchsorted_right x q 0 (length x)"
  have sr: "sorted x" using sorted by (simp add: strict_sorted_imp_sorted)
  have r_le: "r \<le> length x" and r_iff: "\<And>i. i < length x \<Longrightarrow> x ! i \<le> q \<longleftrightarrow> i < r"
    unfolding r_def using digitize_partition [OF sr] by blast+
  have "0 < length x" using len by linarith
  from r_iff [OF this] low have r_pos: "0 < r" by simp
  have "{i \<in> {0..<length x}. x ! i \<le> q} = {0..<r}"
    using r_iff r_le by auto
  moreover have "Max {0..<r} = r - 1"
    using r_pos by (intro Max_eqI) auto
  ultimately have seg: "claimed_segment x q = min (r - 1) (length x - 2)"
    by (simp add: claimed_segment_def)
  show "min (int (searchsorted_right x q 0 (length x))) (int (length x) - 1) - 1
           = int (claimed_segment x q)"
    using r_pos r_le len by (auto simp: seg r_def [symmetric] min_def)
  show "claimed_segment x q \<le> length x - 2" by (simp add: seg)
  have "claimed_segment x q < r" "claimed_segment x q < length x"
    using r_pos r_le len by (auto simp: seg min_def)
  then show "x ! claimed_segment x q \<le> q" using r_iff by simp
  show "q < x ! Suc (claimed_segment x q)" if "q < x ! (length x - 1)"
  proof -
    have "length x - 1 < length x" using len by linarith
    from r_iff [OF this] that have "\<not> length x - 1 < r" by simp
    then have "claimed_segment x q = r - 1" "r < length x" using len r_le by (auto simp: seg)
    then show ?thesis using r_iff [of r] r_pos by simp
  qed
qed

subsection \<open>Evaluation and the whole function\<close>

lemma spline_stages:
  "spline (length x) x y xi = do {
     b \<leftarrow> sample_derivatives x y;
     evaluate (length x) x y b (sample_c x y b) (sample_d x y b) xi
   }"
  by (simp add: spline_def sample_derivatives_def sample_c_def sample_d_def Let_def)

lemma sample_derivatives_closed:
  assumes "3 \<le> length x" "length y = length x"
  shows "sample_derivatives x y
           = Some (map (claimed_b (length x) (claimed_m1 (secant_slopes (diff x) y)))
                    [0..<length x])"
proof -
  let ?m = "secant_slopes (diff x) y"
  have m: "length ?m = length x - 1"
    using assms by (simp add: length_secant_slopes)
  with assms have "extend_slopes (length x) ?m = Some (claimed_m1 ?m)"
    by (intro extend_slopes_closed) simp_all
  moreover have "derivatives (length x) (claimed_m1 ?m)
      = Some (map (claimed_b (length x) (claimed_m1 ?m)) [0..<length x])"
  proof (rule derivatives_closed)
    show "length (claimed_m1 ?m) = length x + 3"
      using assms(1) m by (simp add: length_claimed_m1)
    show "0 < length x" using assms(1) by linarith
  qed
  ultimately show ?thesis by (simp add: sample_derivatives_def)
qed

lemma sample_derivatives_length:
  assumes "3 \<le> length x" "length y = length x" "sample_derivatives x y = Some b"
  shows "length b = length x"
  using assms sample_derivatives_closed [of x y] by auto

lemma segment_index_closed:
  assumes "sorted_wrt (<) x" "2 \<le> length x" "\<forall>q \<in> set xi. x ! 0 \<le> q"
  shows "segment_index (length x) x xi = map (\<lambda>q. int (claimed_segment x q)) xi"
  using assms
  by (simp add: segment_index_def digitize_def Let_def slice_all segment_as_claimed(1))

lemma take_idx_map:
  "\<forall>q \<in> set xi. k q < length a \<Longrightarrow>
   take_idx a (map (\<lambda>q. int (k q)) xi) = Some (map (\<lambda>q. a ! k q) xi)"
  using take_idx_nat [of "map k xi" a] by (simp add: comp_def)

lemma evaluate_closed:
  assumes sorted: "sorted_wrt (<) x" and len: "2 \<le> length x"
    and low: "\<forall>q \<in> set xi. x ! 0 \<le> q"
    and lens: "length y = length x" "length b = length x"
      "length c = length x - 1" "length d = length x - 1"
  shows "evaluate (length x) x y b c d xi
           = Some (map (\<lambda>q. claimed_value x y b c d (claimed_segment x q) q) xi)"
proof -
  have k: "\<forall>q \<in> set xi. claimed_segment x q < length x - 1"
    using segment_as_claimed(2) [OF sorted len] low len by fastforce
  have tx: "take_idx x (map (\<lambda>q. int (claimed_segment x q)) xi)
              = Some (map (\<lambda>q. x ! claimed_segment x q) xi)"
    using k by (intro take_idx_map) auto
  have ty: "take_idx y (map (\<lambda>q. int (claimed_segment x q)) xi)
              = Some (map (\<lambda>q. y ! claimed_segment x q) xi)"
    using k lens by (intro take_idx_map) auto
  have tb: "take_idx b (map (\<lambda>q. int (claimed_segment x q)) xi)
              = Some (map (\<lambda>q. b ! claimed_segment x q) xi)"
    using k lens by (intro take_idx_map) auto
  have tc: "take_idx c (map (\<lambda>q. int (claimed_segment x q)) xi)
              = Some (map (\<lambda>q. c ! claimed_segment x q) xi)"
    using k lens by (intro take_idx_map) auto
  have td: "take_idx d (map (\<lambda>q. int (claimed_segment x q)) xi)
              = Some (map (\<lambda>q. d ! claimed_segment x q) xi)"
    using k lens by (intro take_idx_map) auto
  show ?thesis
    unfolding evaluate_def Let_def segment_index_closed [OF sorted len low]
    unfolding tx ty tb tc td bind.bind_lunit ew_map_left ew_map
    by (simp add: claimed_value_def Let_def mult.commute)
qed

lemma ndim_array1: "ndim (array1 a) = 1"
  by (simp add: ndim_def array1_def)

lemma len_array1: "len (array1 a) = length a"
  by (simp add: len_def array1_def)

lemma data_array1: "data (array1 a) = a"
  by (simp add: array1_def)

lemma shape_last_array1: "getitem (shape (array1 a)) (- 1) = Some (length a)"
  by (simp add: array1_def getitem_def norm_index_def)

lemma getitem_first: "a \<noteq> [] \<Longrightarrow> getitem a 0 = Some (a ! 0)"
  by (simp add: getitem_pos)

text \<open>The function on one-dimensional arrays, check by check.\<close>

lemma interpolate_array1:
  "interpolate (array1 x) (array1 y) (array1 xi) =
     (if length x < 3 then Inl (ValueError ''array too small'')
      else if length y \<noteq> length x then Inl (ValueError ''size of x-array must match data shape'')
      else if \<not> sorted_wrt (<) x then Inl (ValueError ''x-axis not valid'')
      else if (\<exists>q \<in> set xi. q < x ! 0) \<or> (\<exists>q \<in> set xi. last x < q)
        then Inl (ValueError ''interpolation x-axis out of bounds'')
      else (case spline (length x) x y xi of Some r \<Rightarrow> Inr (array1 r) | None \<Rightarrow> Inl NumpyError))"
proof (cases "length x < 3")
  case True
  then show ?thesis
    by (simp add: interpolate_def interpolate_py_def ndim_array1 len_array1)
next
  case False
  then have "x \<noteq> []" by auto
  then have "getitem x 0 = Some (x ! 0)" "getitem x (- 1) = Some (last x)"
    by (simp_all add: getitem_first getitem_last)
  moreover have "list_ex (\<lambda>q. q < x ! 0) xi \<longleftrightarrow> (\<exists>q \<in> set xi. q < x ! 0)"
    "list_ex (\<lambda>q. q > last x) xi \<longleftrightarrow> (\<exists>q \<in> set xi. last x < q)"
    by (simp_all add: list_ex_iff)
  ultimately show ?thesis
    using False
    by (simp add: interpolate_def interpolate_py_def ndim_array1 len_array1 data_array1
        shape_last_array1 strictly_increasing_diff Let_def)
qed

lemma interpolate_valid:
  assumes "3 \<le> length x" "length y = length x" "sorted_wrt (<) x"
    and "\<forall>q \<in> set xi. x ! 0 \<le> q \<and> q \<le> last x"
    and b: "sample_derivatives x y = Some b"
  shows "interpolate (array1 x) (array1 y) (array1 xi)
           = Inr (array1 (map (\<lambda>q. claimed_value x y b (sample_c x y b) (sample_d x y b)
                                      (claimed_segment x q) q) xi))"
proof -
  have lb: "length b = length x"
    using assms(1,2) b by (rule sample_derivatives_length)
  have lm: "length (secant_slopes (diff x) y) = length x - 1"
    using assms by (simp add: length_secant_slopes)
  have "evaluate (length x) x y b (sample_c x y b) (sample_d x y b) xi
          = Some (map (\<lambda>q. claimed_value x y b (sample_c x y b) (sample_d x y b)
                                      (claimed_segment x q) q) xi)"
  proof (rule evaluate_closed)
    show "sorted_wrt (<) x" by fact
    show "2 \<le> length x" using assms(1) by linarith
    show "\<forall>q \<in> set xi. x ! 0 \<le> q" using assms(4) by blast
    show "length y = length x" by fact
    show "length b = length x" by fact
    show "length (sample_c x y b) = length x - 1"
      unfolding sample_c_def using lm lb by (rule length_coeff_c) (simp add: length_diff)
    show "length (sample_d x y b) = length x - 1"
      unfolding sample_d_def using lm lb by (rule length_coeff_d) (simp add: length_diff)
  qed
  then have "spline (length x) x y xi
          = Some (map (\<lambda>q. claimed_value x y b (sample_c x y b) (sample_d x y b)
                                      (claimed_segment x q) q) xi)"
    by (simp add: spline_stages b)
  moreover have "\<not> ((\<exists>q \<in> set xi. q < x ! 0) \<or> (\<exists>q \<in> set xi. last x < q))"
    using assms(4) by (auto simp: not_less)
  ultimately show ?thesis
    using assms(1-3) by (simp add: interpolate_array1)
qed

subsection \<open>Values at the samples\<close>

lemma segment_facts:
  fixes x y b :: "real list" and i :: nat
  assumes "3 \<le> length x" "length y = length x" "sorted_wrt (<) x"
    and "Suc i < length x" and "sample_derivatives x y = Some b"
  defines "dx_i \<equiv> x ! Suc i - x ! i"
    and "m_i \<equiv> (y ! Suc i - y ! i) / (x ! Suc i - x ! i)"
    and "c_i \<equiv> sample_c x y b ! i"
    and "d_i \<equiv> sample_d x y b ! i"
  defines "S \<equiv> segment_cubic (y ! i) (b ! i) c_i d_i"
  shows "diff x ! i = dx_i \<and> 0 < dx_i \<and> secant_slopes (diff x) y ! i = m_i
       \<and> c_i = (3 * m_i - 2 * b ! i - b ! Suc i) / dx_i
       \<and> d_i = (b ! i + b ! Suc i - 2 * m_i) / dx_i ^ 2
       \<and> S 0 = y ! i \<and> S dx_i = y ! Suc i
       \<and> (S has_real_derivative b ! i) (at 0)
       \<and> (S has_real_derivative b ! Suc i) (at dx_i)"
proof -
  have lb: "length b = length x"
    using assms(1,2,5) by (rule sample_derivatives_length)
  have lm: "length (secant_slopes (diff x) y) = length x - 1"
    using assms(2) by (simp add: length_secant_slopes)
  have ld: "length (diff x) = length x - 1" by (simp add: length_diff)
  have dx: "diff x ! i = dx_i"
    using assms(4) by (simp add: nth_diff dx_i_def)
  have pos: "0 < dx_i"
    using diff_positive [OF assms(3,4)] dx by simp
  have m: "secant_slopes (diff x) y ! i = m_i"
    using assms(2,4) by (simp add: nth_secant_slopes m_i_def)
  have c: "c_i = (3 * m_i - 2 * b ! i - b ! Suc i) / dx_i"
    unfolding c_i_def sample_c_def using nth_coeff_c [OF lm lb ld assms(4)] by (simp add: m dx)
  have d: "d_i = (b ! i + b ! Suc i - 2 * m_i) / dx_i ^ 2"
    unfolding d_i_def sample_d_def using nth_coeff_d [OF lm lb ld assms(4)] by (simp add: m dx)
  have m': "m_i = (y ! Suc i - y ! i) / dx_i" by (simp add: m_i_def dx_i_def)
  have S: "S = (\<lambda>t. y ! i + b ! i * t + c_i * t ^ 2 + d_i * t ^ 3)"
    by (simp add: S_def segment_cubic_def fun_eq_iff)
  have S0: "S 0 = y ! i" by (simp add: S)
  have S1: "S dx_i = y ! Suc i"
    unfolding S using pos by (intro cubic_right_value [OF _ m' c d]) simp
  have D: "(S has_real_derivative (b ! i + 2 * c_i * t + 3 * d_i * t ^ 2)) (at t)" for t
    unfolding S by (rule cubic_derivative)
  have D0: "(S has_real_derivative b ! i) (at 0)"
    using D [of 0] by simp
  have "b ! i + 2 * c_i * dx_i + 3 * d_i * dx_i ^ 2 = b ! Suc i"
    using pos by (intro cubic_right_slope [OF _ c d]) simp
  then have D1: "(S has_real_derivative b ! Suc i) (at dx_i)"
    using D [of dx_i] by simp
  from dx pos m c d S0 S1 D0 D1 show ?thesis by blast
qed

lemma claimed_value_cubic:
  "claimed_value x y b c d k q = segment_cubic (y ! k) (b ! k) (c ! k) (d ! k) (q - x ! k)"
  by (simp add: claimed_value_def segment_cubic_def Let_def power2_eq_square power3_eq_cube
      algebra_simps)

lemma sample_derivatives_defined:
  assumes "3 \<le> length x" "length y = length x"
  obtains b where "sample_derivatives x y = Some b" "length b = length x"
  using sample_derivatives_closed [OF assms] by simp

lemma segment_at_knot:
  assumes sorted: "sorted_wrt (<) x" and k: "k < length x"
  shows "claimed_segment x (x ! k) = min k (length x - 2)"
proof -
  have iff: "x ! i \<le> x ! k \<longleftrightarrow> i \<le> k" if "i < length x" for i
  proof
    assume "x ! i \<le> x ! k"
    show "i \<le> k"
    proof (rule ccontr)
      assume "\<not> i \<le> k"
      then have "x ! k < x ! i"
        using sorted that by (simp add: sorted_wrt_nth_less)
      with \<open>x ! i \<le> x ! k\<close> show False by simp
    qed
  next
    assume "i \<le> k"
    then show "x ! i \<le> x ! k"
      using sorted k sorted_wrt_nth_less [of "(<)" x i k] by (cases "i = k") auto
  qed
  have "{i \<in> {0..<length x}. x ! i \<le> x ! k} = {0..k}"
    using iff k by auto
  moreover have "Max {0..k} = k" by (intro Max_eqI) auto
  ultimately show ?thesis by (simp add: claimed_segment_def)
qed

lemma value_at_knot:
  assumes v: "3 \<le> length x" "length y = length x" "sorted_wrt (<) x"
    and b: "sample_derivatives x y = Some b" and k: "k < length x"
  shows "claimed_value x y b (sample_c x y b) (sample_d x y b) (claimed_segment x (x ! k)) (x ! k)
           = y ! k"
proof (cases "Suc k < length x")
  case True
  then have "claimed_segment x (x ! k) = k"
    using segment_at_knot [OF v(3) k] by simp
  then show ?thesis by (simp add: claimed_value_def)
next
  case False
  define i where "i = length x - 2"
  have i: "Suc i < length x" "Suc i = k" using False k v(1) by (simp_all add: i_def)
  have seg: "claimed_segment x (x ! k) = i"
    using segment_at_knot [OF v(3) k] i by (simp add: i_def)
  have "segment_cubic (y ! i) (b ! i) (sample_c x y b ! i) (sample_d x y b ! i) (x ! Suc i - x ! i)
          = y ! Suc i"
    using segment_facts [OF v i(1) b] by blast
  then show ?thesis
    by (simp add: claimed_value_cubic seg i(2))
qed

lemma segment_between:
  assumes sorted: "sorted_wrt (<) x" and i: "Suc i < length x"
    and q: "x ! i \<le> q" "q < x ! Suc i"
  shows "claimed_segment x q = i"
proof -
  have iff: "x ! j \<le> q \<longleftrightarrow> j \<le> i" if "j < length x" for j
  proof
    assume le: "x ! j \<le> q"
    show "j \<le> i"
    proof (rule ccontr)
      assume "\<not> j \<le> i"
      then have "Suc i \<le> j" by simp
      then have "x ! Suc i \<le> x ! j"
        using sorted that sorted_wrt_nth_less [of "(<)" x "Suc i" j] by (cases "Suc i = j") auto
      with le q(2) show False by simp
    qed
  next
    assume "j \<le> i"
    then have "x ! j \<le> x ! i"
      using sorted i sorted_wrt_nth_less [of "(<)" x j i] by (cases "j = i") auto
    with q(1) show "x ! j \<le> q" by simp
  qed
  have "{j \<in> {0..<length x}. x ! j \<le> q} = {0..i}"
    using iff i by auto
  moreover have "Max {0..i} = i" by (intro Max_eqI) auto
  ultimately show ?thesis using i by (simp add: claimed_segment_def)
qed

subsection \<open>Vanishing weights and linear data\<close>

lemma selected_ids_zero:
  assumes "amax f12 = Some 0"
  shows "selected_ids f12 = Some []"
proof -
  have ne: "f12 \<noteq> []" using assms by (auto simp: amax_def)
  then have "Max (set f12) = 0" using assms by (simp add: amax_Max)
  then have "\<forall>v \<in> set f12. v \<le> 0"
    using Max_ge [of "set f12"] by auto
  then have "filter (\<lambda>i. f12 ! i > 1 / 10 ^ 9 * 0) [0..<length f12] = []"
    by (auto simp: filter_empty_conv not_less)
  then show ?thesis
    using assms by (simp add: selected_ids_def nonzero_map)
qed

lemma derivatives_zero:
  assumes "combined_weights n m1 = (f1, f2, f12)" "amax f12 = Some 0"
  shows "derivatives n m1 = Some (slice m1 1 (n + 1))"
  using assms selected_ids_zero [OF assms(2)] by (simp add: derivatives_def ew_def)

lemma selected_weights_positive:
  assumes len: "length m1 = n + 3" and n: "0 < n"
    and cw: "combined_weights n m1 = (f1, f2, f12)"
    and ids: "selected_ids f12 = Some ids" and ws: "take_idx f12 ids = Some ws"
  shows "\<forall>w \<in> set ws. 0 < w"
proof -
  define top where "top = Max (claimed_weight m1 ` {0..<n})"
  define js where "js = filter (\<lambda>i. claimed_weight m1 i > 1 / 10 ^ 9 * top) [0..<n]"
  have f12: "f12 = map (claimed_weight m1) [0..<n]"
    using cw combined_weights_closed [OF len] by simp
  have "claimed_weight m1 0 \<in> claimed_weight m1 ` {0..<n}" using n by simp
  then have "claimed_weight m1 0 \<le> top"
    unfolding top_def by (intro Max_ge) simp_all
  moreover have "0 \<le> claimed_weight m1 0"
    by (simp add: claimed_weight_def claimed_dm_def)
  ultimately have top: "0 \<le> top" by simp
  have "ids = map int js"
    using ids selected_ids_closed [OF n, of "claimed_weight m1"]
    by (simp add: f12 js_def top_def)
  moreover have "take_idx f12 (map int js) = Some (map (\<lambda>i. f12 ! i) js)"
    by (rule take_idx_nat) (simp add: js_def f12)
  ultimately have "ws = map (\<lambda>i. f12 ! i) js" using ws by simp
  moreover have "0 < f12 ! i" if "i \<in> set js" for i
  proof -
    have "i < n" "claimed_weight m1 i > 1 / 10 ^ 9 * top"
      using that by (simp_all add: js_def)
    moreover have "0 \<le> 1 / 10 ^ 9 * top" using top by simp
    ultimately show ?thesis by (simp add: f12)
  qed
  ultimately show ?thesis by auto
qed

lemma linear_slopes:
  assumes "sorted_wrt (<) x" "y = map (\<lambda>v. a * v + c0) x"
  shows "secant_slopes (diff x) y = replicate (length x - 1) a"
proof (rule nth_equalityI)
  show len: "length (secant_slopes (diff x) y) = length (replicate (length x - 1) a)"
    using assms(2) by (simp add: length_secant_slopes)
  fix i assume "i < length (secant_slopes (diff x) y)"
  then have i: "Suc i < length x" using len by simp
  then have "x ! i < x ! Suc i" using assms(1) by (simp add: sorted_wrt_nth_less)
  then have "(a * x ! Suc i + c0 - (a * x ! i + c0)) / (x ! Suc i - x ! i) = a"
    by (simp add: field_simps)
  then show "secant_slopes (diff x) y ! i = replicate (length x - 1) a ! i"
    using i assms(2) by (simp add: nth_secant_slopes)
qed

lemma replicate_append_two: "replicate k a @ [a, a] = a # a # replicate k a"
  by (induction k) simp_all

lemma claimed_m1_constant:
  assumes "2 \<le> k"
  shows "claimed_m1 (replicate k a) = replicate (k + 4) a"
proof -
  have "replicate (k + 4) a = [a, a] @ replicate k a @ [a, a]"
    by (simp add: replicate_append_two numeral_eq_Suc)
  then show ?thesis
    using assms by (simp add: claimed_m1_def Let_def)
qed

lemma linear_data:
  assumes v: "3 \<le> length x" "sorted_wrt (<) x" and y: "y = map (\<lambda>v. a * v + c0) x"
  shows "extend_slopes (length x) (secant_slopes (diff x) y) = Some (replicate (length x + 3) a)"
    and "combined_weights (length x) (replicate (length x + 3) a)
           = (replicate (length x) 0, replicate (length x) 0, replicate (length x) 0)"
    and "amax (replicate (length x) (0 :: real)) = Some 0"
    and "sample_derivatives x y = Some (replicate (length x) a)"
    and "sample_c x y (replicate (length x) a) = replicate (length x - 1) 0"
    and "sample_d x y (replicate (length x) a) = replicate (length x - 1) 0"
proof -
  let ?n = "length x"
  have ly: "length y = ?n" by (simp add: y)
  have m: "secant_slopes (diff x) y = replicate (?n - 1) a"
    using v(2) y by (rule linear_slopes)
  have "claimed_m1 (replicate (?n - 1) a) = replicate (?n - 1 + 4) a"
    using v(1) by (intro claimed_m1_constant) linarith
  moreover have "?n - 1 + 4 = ?n + 3" using v(1) by linarith
  ultimately have m1: "claimed_m1 (replicate (?n - 1) a) = replicate (?n + 3) a" by simp
  have "extend_slopes ?n (replicate (?n - 1) a) = Some (claimed_m1 (replicate (?n - 1) a))"
    using v(1) by (intro extend_slopes_closed) simp_all
  then show e: "extend_slopes ?n (secant_slopes (diff x) y) = Some (replicate (?n + 3) a)"
    by (simp only: m m1)
  have w: "claimed_dm (replicate (?n + 3) a) j = 0" if "j < ?n + 2" for j
    using that by (simp add: claimed_dm_def)
  have "map (\<lambda>i. claimed_dm (replicate (?n + 3) a) (i + 2)) [0..<?n] = map (\<lambda>i. 0) [0..<?n]"
    "map (claimed_dm (replicate (?n + 3) a)) [0..<?n] = map (\<lambda>i. 0) [0..<?n]"
    "map (claimed_weight (replicate (?n + 3) a)) [0..<?n] = map (\<lambda>i. 0) [0..<?n]"
    by (rule map_cong; simp add: claimed_weight_def w)+
  then have "map (\<lambda>i. claimed_dm (replicate (?n + 3) a) (i + 2)) [0..<?n] = replicate ?n 0"
    "map (claimed_dm (replicate (?n + 3) a)) [0..<?n] = replicate ?n 0"
    "map (claimed_weight (replicate (?n + 3) a)) [0..<?n] = replicate ?n 0"
    by (simp_all only: map_replicate_const length_upt diff_zero)
  then show cw: "combined_weights ?n (replicate (?n + 3) a)
           = (replicate ?n 0, replicate ?n 0, replicate ?n 0)"
    using combined_weights_closed [of "replicate (?n + 3) a" ?n] by simp
  have "replicate ?n (0 :: real) \<noteq> []" using v(1) by auto
  then show top: "amax (replicate ?n (0 :: real)) = Some 0"
    using v(1) by (simp add: amax_Max)
  have "derivatives ?n (replicate (?n + 3) a) = Some (slice (replicate (?n + 3) a) 1 (?n + 1))"
    using cw top by (rule derivatives_zero)
  moreover have "slice (replicate (?n + 3) a) 1 (?n + 1)
      = replicate (min (?n + 1 - 1) (?n + 3 - 1)) a"
    by (simp only: slice_def drop_replicate take_replicate)
  moreover have "min (?n + 1 - 1) (?n + 3 - 1) = ?n" by simp
  ultimately show "sample_derivatives x y = Some (replicate ?n a)"
    by (simp add: sample_derivatives_def e)
  have lens: "length (secant_slopes (diff x) y) = ?n - 1" "length (replicate ?n a) = ?n"
    "length (diff x) = ?n - 1"
    by (simp_all add: m length_diff)
  show "sample_c x y (replicate ?n a) = replicate (?n - 1) 0"
    unfolding sample_c_def
  proof (rule nth_equalityI)
    show "length (coeff_c ?n (secant_slopes (diff x) y) (replicate ?n a) (diff x))
        = length (replicate (?n - 1) (0 :: real))"
      using length_coeff_c [OF lens] by simp
    fix i assume "i < length (coeff_c ?n (secant_slopes (diff x) y) (replicate ?n a) (diff x))"
    then have i: "Suc i < ?n" using length_coeff_c [OF lens] by simp
    show "coeff_c ?n (secant_slopes (diff x) y) (replicate ?n a) (diff x) ! i
        = replicate (?n - 1) 0 ! i"
      using nth_coeff_c [OF lens i] i by (simp add: m)
  qed
  show "sample_d x y (replicate ?n a) = replicate (?n - 1) 0"
    unfolding sample_d_def
  proof (rule nth_equalityI)
    show "length (coeff_d ?n (secant_slopes (diff x) y) (replicate ?n a) (diff x))
        = length (replicate (?n - 1) (0 :: real))"
      using length_coeff_d [OF lens] by simp
    fix i assume "i < length (coeff_d ?n (secant_slopes (diff x) y) (replicate ?n a) (diff x))"
    then have i: "Suc i < ?n" using length_coeff_d [OF lens] by simp
    show "coeff_d ?n (secant_slopes (diff x) y) (replicate ?n a) (diff x) ! i
        = replicate (?n - 1) 0 ! i"
      using nth_coeff_d [OF lens i] i by (simp add: m)
  qed
qed

lemma linear_interpolation:
  assumes v: "3 \<le> length x" "sorted_wrt (<) x" and y: "y = map (\<lambda>v. a * v + c0) x"
    and dom: "\<forall>q \<in> set xi. x ! 0 \<le> q \<and> q \<le> last x"
  shows "interpolate (array1 x) (array1 y) (array1 xi) = Inr (array1 (map (\<lambda>q. a * q + c0) xi))"
proof -
  let ?n = "length x"
  let ?b = "replicate ?n a"
  have ly: "length y = ?n" by (simp add: y)
  have b: "sample_derivatives x y = Some ?b"
    and c: "sample_c x y ?b = replicate (?n - 1) 0"
    and d: "sample_d x y ?b = replicate (?n - 1) 0"
    using linear_data [OF v y] by blast+
  have len: "2 \<le> ?n" using v(1) by linarith
  have pt: "claimed_value x y ?b (sample_c x y ?b) (sample_d x y ?b) (claimed_segment x q) q
          = a * q + c0" if "q \<in> set xi" for q
  proof -
    have "x ! 0 \<le> q" using dom that by blast
    from segment_as_claimed(2) [OF v(2) len this]
    have k: "claimed_segment x q < ?n - 1" "claimed_segment x q < ?n" using len by linarith+
    have "sample_c x y ?b ! claimed_segment x q = 0" "sample_d x y ?b ! claimed_segment x q = 0"
      using k by (simp_all add: c d)
    moreover have "y ! claimed_segment x q = a * x ! claimed_segment x q + c0"
      using k by (simp add: y)
    ultimately show ?thesis
      unfolding claimed_value_def Let_def using k(2) by (simp add: algebra_simps)
  qed
  have "map (\<lambda>q. claimed_value x y ?b (sample_c x y ?b) (sample_d x y ?b)
                       (claimed_segment x q) q) xi = map (\<lambda>q. a * q + c0) xi"
    by (rule map_cong) (simp_all add: pt)
  then show ?thesis
    using interpolate_valid [OF v(1) ly v(2) dom b] by (simp only:)
qed

subsection \<open>Bounds on a cubic piece\<close>

lemma cubic_within_increasing:
  fixes dx t b b' m c d :: real
  assumes dx: "0 < dx" and t: "0 \<le> t" "t \<le> dx"
    and b: "0 \<le> b" "b \<le> 3 * m" and b': "0 \<le> b'" "b' \<le> 3 * m"
    and c: "c = (3 * m - 2 * b - b') / dx" and d: "d = (b + b' - 2 * m) / dx ^ 2"
  shows "0 \<le> b * t + c * t ^ 2 + d * t ^ 3" "b * t + c * t ^ 2 + d * t ^ 3 \<le> m * dx"
proof -
  define w where "w = dx - t"
  have w: "0 \<le> w" using t by (simp add: w_def)
  have m: "0 \<le> m" using b by simp
  have id: "dx ^ 2 * (b * t + c * t ^ 2 + d * t ^ 3)
      = b * t * w ^ 2 - b' * t ^ 2 * w + m * t ^ 2 * (3 * dx - 2 * t)"
    using dx unfolding c d w_def by (simp add: field_simps power2_eq_square power3_eq_cube)
  have "0 \<le> b * t * w ^ 2" using b t by simp
  moreover have "b' * t ^ 2 * w \<le> 3 * m * t ^ 2 * w"
    using b' w by (simp add: mult_right_mono)
  moreover have "3 * m * t ^ 2 * w + m * t ^ 3 = m * t ^ 2 * (3 * dx - 2 * t)"
    by (simp add: w_def algebra_simps power2_eq_square power3_eq_cube)
  moreover have "0 \<le> m * t ^ 3" using m t by simp
  ultimately have "0 \<le> dx ^ 2 * (b * t + c * t ^ 2 + d * t ^ 3)"
    unfolding id by linarith
  then show "0 \<le> b * t + c * t ^ 2 + d * t ^ 3"
    using dx by (simp add: zero_le_mult_iff)
  have "b * t * w ^ 2 \<le> 3 * m * t * w ^ 2"
    using b t by (simp add: mult_right_mono)
  moreover have "0 \<le> b' * t ^ 2 * w" using b' w by simp
  moreover have "3 * m * t * w ^ 2 + m * t ^ 2 * (3 * dx - 2 * t) = m * (dx ^ 3 - w ^ 3)"
    by (simp add: w_def algebra_simps power2_eq_square power3_eq_cube)
  moreover have "0 \<le> m * w ^ 3" using m w by simp
  ultimately have "dx ^ 2 * (b * t + c * t ^ 2 + d * t ^ 3) \<le> m * dx ^ 3"
    unfolding id by (simp add: algebra_simps)
  then have "dx ^ 2 * (b * t + c * t ^ 2 + d * t ^ 3) \<le> dx ^ 2 * (m * dx)"
    by (simp add: power2_eq_square power3_eq_cube algebra_simps)
  then show "b * t + c * t ^ 2 + d * t ^ 3 \<le> m * dx"
    using dx by (simp add: mult_le_cancel_left)
qed

lemma cubic_within_decreasing:
  fixes dx t b b' m c d :: real
  assumes dx: "0 < dx" and t: "0 \<le> t" "t \<le> dx"
    and b: "3 * m \<le> b" "b \<le> 0" and b': "3 * m \<le> b'" "b' \<le> 0"
    and c: "c = (3 * m - 2 * b - b') / dx" and d: "d = (b + b' - 2 * m) / dx ^ 2"
  shows "m * dx \<le> b * t + c * t ^ 2 + d * t ^ 3" "b * t + c * t ^ 2 + d * t ^ 3 \<le> 0"
proof -
  have c': "- c = (3 * (- m) - 2 * (- b) - (- b')) / dx"
    using dx by (simp add: c divide_simps)
  have d': "- d = ((- b) + (- b') - 2 * (- m)) / dx ^ 2"
    using dx by (simp add: d divide_simps)
  have "0 \<le> (- b) * t + (- c) * t ^ 2 + (- d) * t ^ 3"
    "(- b) * t + (- c) * t ^ 2 + (- d) * t ^ 3 \<le> (- m) * dx"
    using cubic_within_increasing [OF dx t _ _ _ _ c' d'] b b' by simp_all
  then show "m * dx \<le> b * t + c * t ^ 2 + d * t ^ 3" "b * t + c * t ^ 2 + d * t ^ 3 \<le> 0"
    by simp_all
qed

section \<open>The claims\<close>

subsection \<open>Derivative estimation\<close>

text \<open>
  C1: for every valid input (\<open>x\<close> strictly increasing, \<open>n = len(x) \<ge> 3\<close>, \<open>len(y) = n\<close>) the
  code's extended slopes \<open>m1\<close> are the secant slopes with the two extrapolated slopes
  \<open>mmm, mm\<close> in front and \<open>mp, mpp\<close> behind (length \<open>n + 3\<close>), and the derivative the code
  computes at sample \<open>i\<close> is \<open>claimed_b\<close>: with \<open>f1 = dm[i+2]\<close> and \<open>f2 = dm[i]\<close> it is the
  weighted value \<open>(f1 * m1[i+1] + f2 * m1[i+2]) / (f1 + f2)\<close> exactly where
  \<open>f1 + f2 > 1e-9 * max\<close> (one maximum over all samples) and \<open>m1[i+1]\<close> elsewhere.
\<close>

theorem derivative_estimator:
  assumes "3 \<le> length x" "length y = length x" "sorted_wrt (<) x"
  shows "extend_slopes (length x) (secant_slopes (diff x) y)
           = Some (claimed_m1 (secant_slopes (diff x) y))
       \<and> length (claimed_m1 (secant_slopes (diff x) y)) = length x + 3
       \<and> sample_derivatives x y
           = Some (map (claimed_b (length x) (claimed_m1 (secant_slopes (diff x) y)))
                    [0..<length x])"
proof -
  let ?m = "secant_slopes (diff x) y"
  have m: "length ?m = length x - 1"
    using assms(2) by (simp add: length_secant_slopes)
  then have "extend_slopes (length x) ?m = Some (claimed_m1 ?m)"
    using assms(1) by (rule extend_slopes_closed)
  moreover have "length (claimed_m1 ?m) = length x + 3"
    using m assms(1) by (simp add: length_claimed_m1)
  moreover note sample_derivatives_closed [OF assms(1,2)]
  ultimately show ?thesis by blast
qed

theorem derivative_estimator_witness:
  "3 \<le> length [0, 1, 3, 4 :: real] \<and> length [0, 2, 3, 7 :: real] = length [0, 1, 3, 4 :: real]
   \<and> sorted_wrt (<) [0, 1, 3, 4 :: real]
   \<and> sample_derivatives [0, 1, 3, 4] [0, 2, 3, 7]
        = Some (map (claimed_b (length [0, 1, 3, 4 :: real])
                       (claimed_m1 (secant_slopes (diff [0, 1, 3, 4]) [0, 2, 3, 7])))
                  [0..<length [0, 1, 3, 4 :: real]])
   \<and> sample_derivatives [0, 1, 3, 4] [0, 2, 3, 7] = Some [11 / 4, 31 / 20, 31 / 20, 23 / 4]"
proof -
  have h: "3 \<le> length [0, 1, 3, 4 :: real]"
    "length [0, 2, 3, 7 :: real] = length [0, 1, 3, 4 :: real]"
    "sorted_wrt (<) [0, 1, 3, 4 :: real]"
    by simp_all
  have v: "sample_derivatives [0, 1, 3, 4] [0, 2, 3, 7] = Some [11 / 4, 31 / 20, 31 / 20, 23 / 4]"
    by code_simp
  from derivative_estimator [OF h] h v show ?thesis by blast
qed

subsection \<open>Segment coefficients\<close>

text \<open>
  C2: for every valid input and every segment \<open>i = 0..n-2\<close> the coefficients the code computes
  are \<open>c_i = (3 m_i - 2 b_i - b_{i+1}) / dx_i\<close> and \<open>d_i = (b_i + b_{i+1} - 2 m_i) / dx_i\<^sup>2\<close>, and
  the cubic \<open>S_i(t) = y_i + b_i t + c_i t\<^sup>2 + d_i t\<^sup>3\<close> has \<open>S_i(0) = y_i\<close>, \<open>S_i(dx_i) = y_{i+1}\<close>,
  \<open>S_i'(0) = b_i\<close> and \<open>S_i'(dx_i) = b_{i+1}\<close>.
\<close>

theorem segment_coefficients:
  fixes x y b :: "real list" and i :: nat
  assumes "3 \<le> length x" "length y = length x" "sorted_wrt (<) x"
    and "Suc i < length x" and "sample_derivatives x y = Some b"
  defines "dx_i \<equiv> x ! Suc i - x ! i"
    and "m_i \<equiv> (y ! Suc i - y ! i) / (x ! Suc i - x ! i)"
    and "c_i \<equiv> sample_c x y b ! i"
    and "d_i \<equiv> sample_d x y b ! i"
  defines "S \<equiv> segment_cubic (y ! i) (b ! i) c_i d_i"
  shows "diff x ! i = dx_i \<and> 0 < dx_i \<and> secant_slopes (diff x) y ! i = m_i
       \<and> c_i = (3 * m_i - 2 * b ! i - b ! Suc i) / dx_i
       \<and> d_i = (b ! i + b ! Suc i - 2 * m_i) / dx_i ^ 2
       \<and> S 0 = y ! i \<and> S dx_i = y ! Suc i
       \<and> (S has_real_derivative b ! i) (at 0)
       \<and> (S has_real_derivative b ! Suc i) (at dx_i)"
  unfolding dx_i_def m_i_def c_i_def d_i_def S_def
  using assms(1-5) by (rule segment_facts)

theorem segment_coefficients_witness:
  "3 \<le> length [0, 1, 3, 4 :: real] \<and> length [0, 2, 3, 7 :: real] = length [0, 1, 3, 4 :: real]
   \<and> sorted_wrt (<) [0, 1, 3, 4 :: real] \<and> Suc 1 < length [0, 1, 3, 4 :: real]
   \<and> sample_derivatives [0, 1, 3, 4] [0, 2, 3, 7] = Some [11 / 4, 31 / 20, 31 / 20, 23 / 4]
   \<and> sample_c [0, 1, 3, 4] [0, 2, 3, 7] [11 / 4, 31 / 20, 31 / 20, 23 / 4] ! 1 = - 63 / 40
   \<and> sample_d [0, 1, 3, 4] [0, 2, 3, 7] [11 / 4, 31 / 20, 31 / 20, 23 / 4] ! 1 = 21 / 40
   \<and> segment_cubic ([0, 2, 3, 7] ! 1) ([11 / 4, 31 / 20, 31 / 20, 23 / 4] ! 1)
        (sample_c [0, 1, 3, 4] [0, 2, 3, 7] [11 / 4, 31 / 20, 31 / 20, 23 / 4] ! 1)
        (sample_d [0, 1, 3, 4] [0, 2, 3, 7] [11 / 4, 31 / 20, 31 / 20, 23 / 4] ! 1)
        ([0, 1, 3, 4] ! Suc 1 - [0, 1, 3, 4] ! 1) = [0, 2, 3, 7] ! Suc 1"
proof -
  have h: "3 \<le> length [0, 1, 3, 4 :: real]"
    "length [0, 2, 3, 7 :: real] = length [0, 1, 3, 4 :: real]"
    "sorted_wrt (<) [0, 1, 3, 4 :: real]" "Suc 1 < length [0, 1, 3, 4 :: real]"
    by simp_all
  have v: "sample_derivatives [0, 1, 3, 4] [0, 2, 3, 7] = Some [11 / 4, 31 / 20, 31 / 20, 23 / 4]"
    by code_simp
  have c: "sample_c [0, 1, 3, 4] [0, 2, 3, 7] [11 / 4, 31 / 20, 31 / 20, 23 / 4] ! 1 = - 63 / 40"
    by code_simp
  have d: "sample_d [0, 1, 3, 4] [0, 2, 3, 7] [11 / 4, 31 / 20, 31 / 20, 23 / 4] ! 1 = 21 / 40"
    by code_simp
  from segment_coefficients [OF h v] h v c d show ?thesis by blast
qed

subsection \<open>Evaluation\<close>

text \<open>
  C3: for every valid input and queries within \<open>[x_0, x_{n-1}]\<close> the segment index the code
  selects for a query \<open>q\<close> is the largest \<open>i\<close> with \<open>x_i \<le> q\<close>, clamped to at most \<open>n - 2\<close>;
  it is a non-negative index of at most \<open>n - 2\<close>, no indexing raises, and the value returned
  for \<open>q\<close> is \<open>((d_k t + c_k) t + b_k) t + y_k\<close> with \<open>t = q - x_k\<close>.
\<close>

theorem evaluator:
  assumes "3 \<le> length x" "length y = length x" "sorted_wrt (<) x"
    and "\<forall>q \<in> set xi. x ! 0 \<le> q \<and> q \<le> last x"
  shows "\<exists>b. sample_derivatives x y = Some b
       \<and> interpolate (array1 x) (array1 y) (array1 xi)
           = Inr (array1 (map (\<lambda>q. claimed_value x y b (sample_c x y b) (sample_d x y b)
                                      (claimed_segment x q) q) xi))
       \<and> segment_index (length x) x xi = map (\<lambda>q. int (claimed_segment x q)) xi
       \<and> (\<forall>q \<in> set xi. claimed_segment x q \<le> length x - 2)"
proof -
  obtain b where b: "sample_derivatives x y = Some b"
    using sample_derivatives_defined [OF assms(1,2)] by blast
  have len: "2 \<le> length x" using assms(1) by linarith
  have low: "\<forall>q \<in> set xi. x ! 0 \<le> q" using assms(4) by blast
  have "segment_index (length x) x xi = map (\<lambda>q. int (claimed_segment x q)) xi"
    using assms(3) len low by (rule segment_index_closed)
  moreover have "\<forall>q \<in> set xi. claimed_segment x q \<le> length x - 2"
    using segment_as_claimed(2) [OF assms(3) len] low by blast
  moreover note interpolate_valid [OF assms b]
  ultimately show ?thesis using b by blast
qed

theorem evaluator_witness:
  "3 \<le> length [0, 1, 3, 4 :: real] \<and> length [0, 2, 3, 7 :: real] = length [0, 1, 3, 4 :: real]
   \<and> sorted_wrt (<) [0, 1, 3, 4 :: real]
   \<and> list_all (\<lambda>q. [0, 1, 3, 4] ! 0 \<le> q \<and> q \<le> last [0, 1, 3, 4]) [0, 1 / 2, 5 / 2, 3, 4 :: real]
   \<and> segment_index (length [0, 1, 3, 4 :: real]) [0, 1, 3, 4] [0, 1 / 2, 5 / 2, 3, 4]
        = map (\<lambda>q. int (claimed_segment [0, 1, 3, 4] q)) [0, 1 / 2, 5 / 2, 3, 4]
   \<and> segment_index 4 [0, 1, 3, 4] [0, 1 / 2, 5 / 2, 3, 4] = [0, 0, 1, 2, 2]
   \<and> interpolate (array1 [0, 1, 3, 4]) (array1 [0, 2, 3, 7]) (array1 [0, 1 / 2, 5 / 2, 3, 4])
        = Inr (array1 [0, 23 / 20, 817 / 320, 3, 7])"
proof -
  have h: "3 \<le> length [0, 1, 3, 4 :: real]"
    "length [0, 2, 3, 7 :: real] = length [0, 1, 3, 4 :: real]"
    "sorted_wrt (<) [0, 1, 3, 4 :: real]"
    by simp_all
  have d: "\<forall>q \<in> set [0, 1 / 2, 5 / 2, 3, 4 :: real]. [0, 1, 3, 4] ! 0 \<le> q \<and> q \<le> last [0, 1, 3, 4]"
    by simp
  have d': "list_all (\<lambda>q. [0, 1, 3, 4] ! 0 \<le> q \<and> q \<le> last [0, 1, 3, 4]) [0, 1 / 2, 5 / 2, 3, 4 :: real]"
    by simp
  have s: "segment_index 4 [0, 1, 3, 4] [0, 1 / 2, 5 / 2, 3, 4] = [0, 0, 1, 2, 2]"
    by code_simp
  have v: "interpolate (array1 [0, 1, 3, 4]) (array1 [0, 2, 3, 7]) (array1 [0, 1 / 2, 5 / 2, 3, 4])
        = Inr (array1 [0, 23 / 20, 817 / 320, 3, 7])"
    by code_simp
  from evaluator [OF h d] h d' s v show ?thesis by blast
qed

subsection \<open>Round trip\<close>

text \<open>
  C4: for every valid \<open>(x, y)\<close>, \<open>interpolate(x, y, x)\<close> returns \<open>y\<close>; the queries \<open>x_min\<close> and
  \<open>x_max\<close> return \<open>y[0]\<close> and \<open>y[-1]\<close>; and in any in-range query array, a query equal to a
  sample abscissa \<open>x_k\<close> yields \<open>y_k\<close>. The segment of \<open>x_k\<close> is \<open>k\<close> itself (offset \<open>t = 0\<close>) for
  \<open>k \<le> n - 2\<close> and the last segment \<open>n - 2\<close> for \<open>k = n - 1\<close>.
\<close>

theorem round_trip:
  assumes "3 \<le> length x" "length y = length x" "sorted_wrt (<) x"
  shows "interpolate (array1 x) (array1 y) (array1 x) = Inr (array1 y)
       \<and> interpolate (array1 x) (array1 y) (array1 [x ! 0, last x]) = Inr (array1 [y ! 0, last y])
       \<and> (\<forall>xi. (\<forall>q \<in> set xi. x ! 0 \<le> q \<and> q \<le> last x) \<longrightarrow>
            (\<exists>out. interpolate (array1 x) (array1 y) (array1 xi) = Inr (array1 out)
               \<and> length out = length xi
               \<and> (\<forall>j < length xi. \<forall>k < length x. xi ! j = x ! k \<longrightarrow> out ! j = y ! k)))
       \<and> (\<forall>k < length x. claimed_segment x (x ! k) = min k (length x - 2))"
proof -
  obtain b where b: "sample_derivatives x y = Some b"
    using sample_derivatives_defined [OF assms(1,2)] by blast
  let ?f = "\<lambda>q. claimed_value x y b (sample_c x y b) (sample_d x y b) (claimed_segment x q) q"
  have knot: "?f (x ! k) = y ! k" if "k < length x" for k
    using assms b that by (rule value_at_knot)
  have ne: "x \<noteq> []" "y \<noteq> []" using assms(1,2) by auto
  have sorted: "sorted x" using assms(3) by (simp add: strict_sorted_imp_sorted)
  have dom: "x ! 0 \<le> x ! k \<and> x ! k \<le> last x" if "k < length x" for k
    using sorted that ne by (simp add: sorted_nth_mono last_conv_nth)
  have general: "interpolate (array1 x) (array1 y) (array1 xi) = Inr (array1 (map ?f xi))"
    if "\<forall>q \<in> set xi. x ! 0 \<le> q \<and> q \<le> last x" for xi
    using assms that b by (rule interpolate_valid)
  have "\<forall>q \<in> set x. x ! 0 \<le> q \<and> q \<le> last x"
    using dom by (auto simp: in_set_conv_nth)
  then have "interpolate (array1 x) (array1 y) (array1 x) = Inr (array1 (map ?f x))"
    by (rule general)
  moreover have "map ?f x = y"
    using knot assms(2) by (auto simp: list_eq_iff_nth_eq)
  ultimately have 1: "interpolate (array1 x) (array1 y) (array1 x) = Inr (array1 y)"
    by simp
  have last: "last x = x ! (length x - 1)" "last y = y ! (length x - 1)"
    using ne assms(2) by (simp_all add: last_conv_nth)
  have "\<forall>q \<in> set [x ! 0, last x]. x ! 0 \<le> q \<and> q \<le> last x"
    using dom [of 0] dom [of "length x - 1"] ne by (simp add: last)
  then have "interpolate (array1 x) (array1 y) (array1 [x ! 0, last x])
               = Inr (array1 (map ?f [x ! 0, last x]))"
    by (rule general)
  moreover have "?f (x ! 0) = y ! 0" "?f (last x) = last y"
    using knot [of 0] knot [of "length x - 1"] ne by (simp_all add: last)
  ultimately have 2: "interpolate (array1 x) (array1 y) (array1 [x ! 0, last x])
               = Inr (array1 [y ! 0, last y])"
    by simp
  have 3: "\<exists>out. interpolate (array1 x) (array1 y) (array1 xi) = Inr (array1 out)
               \<and> length out = length xi
               \<and> (\<forall>j < length xi. \<forall>k < length x. xi ! j = x ! k \<longrightarrow> out ! j = y ! k)"
    if "\<forall>q \<in> set xi. x ! 0 \<le> q \<and> q \<le> last x" for xi
  proof (intro exI conjI)
    show "interpolate (array1 x) (array1 y) (array1 xi) = Inr (array1 (map ?f xi))"
      using that by (rule general)
    show "length (map ?f xi) = length xi" by simp
    show "\<forall>j < length xi. \<forall>k < length x. xi ! j = x ! k \<longrightarrow> map ?f xi ! j = y ! k"
      using knot by simp
  qed
  have 4: "\<forall>k < length x. claimed_segment x (x ! k) = min k (length x - 2)"
    using segment_at_knot [OF assms(3)] by blast
  from 1 2 3 4 show ?thesis by blast
qed

theorem round_trip_witness:
  "3 \<le> length [0, 1, 3, 4 :: real] \<and> length [0, 2, 3, 7 :: real] = length [0, 1, 3, 4 :: real]
   \<and> sorted_wrt (<) [0, 1, 3, 4 :: real]
   \<and> interpolate (array1 [0, 1, 3, 4]) (array1 [0, 2, 3, 7]) (array1 [0, 1, 3, 4])
        = Inr (array1 [0, 2, 3, 7])"
proof -
  have h: "3 \<le> length [0, 1, 3, 4 :: real]"
    "length [0, 2, 3, 7 :: real] = length [0, 1, 3, 4 :: real]"
    "sorted_wrt (<) [0, 1, 3, 4 :: real]"
    by simp_all
  from round_trip [OF h] h show ?thesis by blast
qed

subsection \<open>Validation\<close>

text \<open>
  C5: on one-dimensional arrays \<open>interpolate\<close> raises a \<open>ValueError\<close> exactly when \<open>n < 3\<close>, or
  \<open>len(y) \<noteq> n\<close>, or \<open>x\<close> is not strictly increasing, or a query lies outside
  \<open>[x_0, x_{n-1}]\<close>, each with the message of its check, in this order; otherwise (queries
  equal to \<open>x_0\<close> or \<open>x_{n-1}\<close> included) it returns an array. An error is the whole result:
  in the model the error branches are reached without \<open>spline\<close> being evaluated.
\<close>

theorem validation:
  fixes x y xi :: "real list"
  defines "r \<equiv> interpolate (array1 x) (array1 y) (array1 xi)"
  shows "((\<exists>msg. r = Inl (ValueError msg)) \<longleftrightarrow>
            length x < 3 \<or> length y \<noteq> length x \<or> \<not> sorted_wrt (<) x
            \<or> (\<exists>q \<in> set xi. q < x ! 0 \<or> last x < q))
       \<and> ((\<exists>out. r = Inr (array1 out)) \<longleftrightarrow>
            3 \<le> length x \<and> length y = length x \<and> sorted_wrt (<) x
            \<and> (\<forall>q \<in> set xi. x ! 0 \<le> q \<and> q \<le> last x))
       \<and> (length x < 3 \<longrightarrow> r = Inl (ValueError ''array too small''))
       \<and> (3 \<le> length x \<and> length y \<noteq> length x \<longrightarrow>
            r = Inl (ValueError ''size of x-array must match data shape''))
       \<and> (3 \<le> length x \<and> length y = length x \<and> \<not> sorted_wrt (<) x \<longrightarrow>
            r = Inl (ValueError ''x-axis not valid''))
       \<and> (3 \<le> length x \<and> length y = length x \<and> sorted_wrt (<) x
            \<and> (\<exists>q \<in> set xi. q < x ! 0 \<or> last x < q) \<longrightarrow>
            r = Inl (ValueError ''interpolation x-axis out of bounds''))"
proof (cases "3 \<le> length x \<and> length y = length x \<and> sorted_wrt (<) x
            \<and> (\<forall>q \<in> set xi. x ! 0 \<le> q \<and> q \<le> last x)")
  case True
  then obtain b where b: "sample_derivatives x y = Some b"
    using sample_derivatives_defined [of x y] by blast
  have "\<exists>out. r = Inr (array1 out)"
    unfolding r_def using interpolate_valid [of x y xi b] True b by blast
  then show ?thesis using True by (auto simp: not_less)
next
  case False
  then show ?thesis
    unfolding r_def by (auto simp: interpolate_array1 not_less not_le)
qed

theorem validation_witness:
  "(\<exists>msg. interpolate (array1 [0, 1]) (array1 [0, 1]) (array1 []) = Inl (ValueError msg))
   \<and> (\<exists>msg. interpolate (array1 [0, 1, 1]) (array1 [0, 1, 2]) (array1 []) = Inl (ValueError msg))
   \<and> (\<exists>msg. interpolate (array1 [0, 1, 2]) (array1 [0, 1, 2]) (array1 [3]) = Inl (ValueError msg))
   \<and> (\<exists>out. interpolate (array1 [0, 1, 2]) (array1 [0, 0, 1]) (array1 [0, 2]) = Inr (array1 out))"
proof -
  have "\<exists>msg. interpolate (array1 [0, 1]) (array1 [0, 1]) (array1 []) = Inl (ValueError msg)"
    using validation [of "[0, 1]" "[0, 1]" "[]"] by simp
  moreover have "\<exists>msg. interpolate (array1 [0, 1, 1]) (array1 [0, 1, 2]) (array1 [])
      = Inl (ValueError msg)"
    using validation [of "[0, 1, 1]" "[0, 1, 2]" "[]"] by simp
  moreover have "\<exists>msg. interpolate (array1 [0, 1, 2]) (array1 [0, 1, 2]) (array1 [3])
      = Inl (ValueError msg)"
    using validation [of "[0, 1, 2]" "[0, 1, 2]" "[3]"] by simp
  moreover have "\<exists>out. interpolate (array1 [0, 1, 2]) (array1 [0, 0, 1]) (array1 [0, 2])
      = Inr (array1 out)"
    using validation [of "[0, 1, 2]" "[0, 0, 1]" "[0, 2]"] by simp
  ultimately show ?thesis by blast
qed

subsection \<open>The documented example\<close>

text \<open>
  C6: for \<open>x = [0, 1, 2]\<close>, \<open>y = [0, 0, 1]\<close> and \<open>x_new = [0.5, 1.5]\<close> the function returns
  \<open>[-0.125, 0.375]\<close>; the derivatives are \<open>b = [-0.5, 0.5, 1.5]\<close> and the coefficients are
  \<open>c = [0.5, 0.5]\<close> and \<open>d = [0, 0]\<close>.
\<close>

theorem docstring_example:
  "interpolate (array1 [0, 1, 2]) (array1 [0, 0, 1]) (array1 [1 / 2, 3 / 2])
     = Inr (array1 [- 1 / 8, 3 / 8])
   \<and> sample_derivatives [0, 1, 2] [0, 0, 1] = Some [- 1 / 2, 1 / 2, 3 / 2]
   \<and> sample_c [0, 1, 2] [0, 0, 1] [- 1 / 2, 1 / 2, 3 / 2] = [1 / 2, 1 / 2]
   \<and> sample_d [0, 1, 2] [0, 0, 1] [- 1 / 2, 1 / 2, 3 / 2] = [0, 0]"
proof -
  have "interpolate (array1 [0, 1, 2]) (array1 [0, 0, 1]) (array1 [1 / 2, 3 / 2])
     = Inr (array1 [- 1 / 8, 3 / 8])"
    by code_simp
  moreover have "sample_derivatives [0, 1, 2] [0, 0, 1] = Some [- 1 / 2, 1 / 2, 3 / 2]"
    by code_simp
  moreover have "sample_c [0, 1, 2] [0, 0, 1] [- 1 / 2, 1 / 2, 3 / 2] = [1 / 2, 1 / 2]"
    by code_simp
  moreover have "sample_d [0, 1, 2] [0, 0, 1] [- 1 / 2, 1 / 2, 3 / 2] = [0, 0]"
    by code_simp
  ultimately show ?thesis by blast
qed

subsection \<open>Vanishing weights and linear data\<close>

text \<open>
  C7: when the largest combined weight \<open>f1 + f2\<close> is \<open>0\<close>, line 236 selects no index, every
  \<open>b_i\<close> is its default \<open>m1[i+1]\<close> and the weighted branch divides by nothing. No divisor of
  the computation is zero: every \<open>dx_i\<close> is positive, and every weight the weighted branch
  divides by is positive, whatever the maximum. For exactly linear data \<open>y_i = a x_i + c0\<close> the
  largest weight is \<open>0\<close>, every \<open>b_i\<close> is \<open>a\<close>, every \<open>c_i\<close> and \<open>d_i\<close> is \<open>0\<close>, and every
  in-range query \<open>q\<close> returns \<open>a q + c0\<close>.
\<close>

theorem zero_weight_fallback:
  assumes "3 \<le> length x" "length y = length x" "sorted_wrt (<) x"
    and "extend_slopes (length x) (secant_slopes (diff x) y) = Some m1"
    and "combined_weights (length x) m1 = (f1, f2, f12)"
  shows "(amax f12 = Some 0 \<longrightarrow>
            selected_ids f12 = Some []
          \<and> sample_derivatives x y = Some (slice m1 1 (length x + 1))
          \<and> (\<forall>i < length x. slice m1 1 (length x + 1) ! i = m1 ! (i + 1))
          \<and> take_idx f12 [] = Some [])
       \<and> (\<forall>v \<in> set (diff x). 0 < v)
       \<and> (\<forall>ids ws. selected_ids f12 = Some ids \<and> take_idx f12 ids = Some ws \<longrightarrow>
            (\<forall>w \<in> set ws. 0 < w))
       \<and> (\<forall>a c0. y = map (\<lambda>v. a * v + c0) x \<longrightarrow>
            amax f12 = Some 0
          \<and> sample_derivatives x y = Some (replicate (length x) a)
          \<and> sample_c x y (replicate (length x) a) = replicate (length x - 1) 0
          \<and> sample_d x y (replicate (length x) a) = replicate (length x - 1) 0
          \<and> (\<forall>xi. (\<forall>q \<in> set xi. x ! 0 \<le> q \<and> q \<le> last x) \<longrightarrow>
                interpolate (array1 x) (array1 y) (array1 xi)
                  = Inr (array1 (map (\<lambda>q. a * q + c0) xi))))"
proof (intro conjI impI allI)
  have len: "length m1 = length x + 3"
    using assms(1,2,4) extend_slopes_closed [of "secant_slopes (diff x) y" "length x"]
    by (auto simp: length_secant_slopes length_claimed_m1)
  show "\<forall>v \<in> set (diff x). 0 < v"
    using assms(3) strictly_increasing_diff [of x] by (auto simp: list_ex_iff not_le)
  show "\<forall>w \<in> set ws. 0 < w"
    if "selected_ids f12 = Some ids \<and> take_idx f12 ids = Some ws" for ids ws
  proof (rule selected_weights_positive [OF len _ assms(5)])
    show "0 < length x" using assms(1) by linarith
    show "selected_ids f12 = Some ids" "take_idx f12 ids = Some ws" using that by blast+
  qed
  assume top: "amax f12 = Some 0"
  show "selected_ids f12 = Some []" using top by (rule selected_ids_zero)
  show "sample_derivatives x y = Some (slice m1 1 (length x + 1))"
    using derivatives_zero [OF assms(5) top] by (simp add: sample_derivatives_def assms(4))
  show "take_idx f12 [] = Some []" by simp
  show "\<And>i. i < length x \<Longrightarrow> slice m1 1 (length x + 1) ! i = m1 ! (i + 1)"
    using len by (simp add: nth_slice)
next
  fix a c0 assume y: "y = map (\<lambda>v. a * v + c0) x"
  note lin = linear_data [OF assms(1,3) y]
  have "m1 = replicate (length x + 3) a" using lin(1) assms(4) by simp
  then have "(f1, f2, f12)
      = (replicate (length x) 0, replicate (length x) 0, replicate (length x) 0)"
    using lin(2) assms(5) by (simp only:)
  then have "f12 = replicate (length x) 0" by (simp only: prod.inject)
  then show "amax f12 = Some 0" using lin(3) by (simp only:)
  show "sample_derivatives x y = Some (replicate (length x) a)" by (rule lin(4))
  show "sample_c x y (replicate (length x) a) = replicate (length x - 1) 0" by (rule lin(5))
  show "sample_d x y (replicate (length x) a) = replicate (length x - 1) 0" by (rule lin(6))
  show "\<And>xi. \<forall>q \<in> set xi. x ! 0 \<le> q \<and> q \<le> last x \<Longrightarrow>
      interpolate (array1 x) (array1 y) (array1 xi) = Inr (array1 (map (\<lambda>q. a * q + c0) xi))"
    using assms(1,3) y by (rule linear_interpolation)
qed

theorem zero_weight_fallback_witness:
  "3 \<le> length [0, 1, 2, 3, 4 :: real]
   \<and> length [0, 1, 2, 3, 4 :: real] = length [0, 1, 2, 3, 4 :: real]
   \<and> sorted_wrt (<) [0, 1, 2, 3, 4 :: real]
   \<and> extend_slopes (length [0, 1, 2, 3, 4 :: real])
        (secant_slopes (diff [0, 1, 2, 3, 4]) [0, 1, 2, 3, 4]) = Some [1, 1, 1, 1, 1, 1, 1, 1]
   \<and> combined_weights (length [0, 1, 2, 3, 4 :: real]) [1, 1, 1, 1, 1, 1, 1, 1]
        = ([0, 0, 0, 0, 0], [0, 0, 0, 0, 0], [0, 0, 0, 0, 0])
   \<and> amax [0, 0, 0, 0, 0] = Some 0
   \<and> selected_ids [0, 0, 0, 0, 0] = Some []
   \<and> sample_derivatives [0, 1, 2, 3, 4] [0, 1, 2, 3, 4]
        = Some (replicate (length [0, 1, 2, 3, 4 :: real]) 1)
   \<and> interpolate (array1 [0, 1, 2, 3, 4]) (array1 [0, 1, 2, 3, 4]) (array1 [1 / 2, 7 / 2, 4])
        = Inr (array1 [1 / 2, 7 / 2, 4])"
proof -
  have h: "3 \<le> length [0, 1, 2, 3, 4 :: real]"
    "length [0, 1, 2, 3, 4 :: real] = length [0, 1, 2, 3, 4 :: real]"
    "sorted_wrt (<) [0, 1, 2, 3, 4 :: real]"
    by simp_all
  have e: "extend_slopes (length [0, 1, 2, 3, 4 :: real])
        (secant_slopes (diff [0, 1, 2, 3, 4]) [0, 1, 2, 3, 4]) = Some [1, 1, 1, 1, 1, 1, 1, 1]"
    by code_simp
  have w: "combined_weights (length [0, 1, 2, 3, 4 :: real]) [1, 1, 1, 1, 1, 1, 1, 1]
        = ([0, 0, 0, 0, 0], [0, 0, 0, 0, 0], [0, 0, 0, 0, 0])"
    by code_simp
  have t: "amax [0, 0, 0, 0, 0] = Some 0"
    by code_simp
  have y: "[0, 1, 2, 3, 4 :: real] = map (\<lambda>v. 1 * v + 0) [0, 1, 2, 3, 4]"
    by simp
  have d: "\<forall>q \<in> set [1 / 2, 7 / 2, 4 :: real]. [0, 1, 2, 3, 4] ! 0 \<le> q \<and> q \<le> last [0, 1, 2, 3, 4]"
    by simp
  note inst = zero_weight_fallback [OF h e w]
  note lin = inst [THEN conjunct2, THEN conjunct2, THEN conjunct2, rule_format, of 1 0, OF y]
  have "selected_ids [0, 0, 0, 0, 0] = Some []"
    using inst [THEN conjunct1] t by blast
  moreover have "sample_derivatives [0, 1, 2, 3, 4] [0, 1, 2, 3, 4]
        = Some (replicate (length [0, 1, 2, 3, 4 :: real]) 1)"
    using lin by blast
  moreover have "interpolate (array1 [0, 1, 2, 3, 4]) (array1 [0, 1, 2, 3, 4])
        (array1 [1 / 2, 7 / 2, 4])
        = Inr (array1 (map (\<lambda>q. 1 * q + 0) [1 / 2, 7 / 2, 4]))"
    using lin d by blast
  ultimately show ?thesis using h e w t by simp
qed

subsection \<open>Overshoot on monotonic data\<close>

text \<open>
  C8 as stated fails: \<open>y = [0, 10, 20, 21, 31, 41]\<close> over \<open>x = [0, 1, 2, 102, 103, 104]\<close> is
  strictly increasing, the query \<open>27\<close> lies strictly between \<open>x_2 = 2\<close> and \<open>x_3 = 102\<close>, and
  the interpolated value \<open>113.90625\<close> exceeds \<open>max(y_2, y_3) = 21\<close> by more than \<open>92\<close>: more
  than ninety times the rise of the segment and more than twice the range of all the data.
\<close>

theorem monotone_overshoot:
  "sorted_wrt (<) [0, 1, 2, 102, 103, 104 :: real]
   \<and> sorted_wrt (<) [0, 10, 20, 21, 31, 41 :: real]
   \<and> [0, 1, 2, 102, 103, 104] ! 2 < (27 :: real) \<and> (27 :: real) < [0, 1, 2, 102, 103, 104] ! 3
   \<and> interpolate (array1 [0, 1, 2, 102, 103, 104]) (array1 [0, 10, 20, 21, 31, 41]) (array1 [27])
        = Inr (array1 [3645 / 32])
   \<and> max ([0, 10, 20, 21, 31, 41] ! 2) ([0, 10, 20, 21, 31, 41] ! 3) + 92 < (3645 / 32 :: real)"
proof -
  have "interpolate (array1 [0, 1, 2, 102, 103, 104]) (array1 [0, 10, 20, 21, 31, 41])
      (array1 [27]) = Inr (array1 [3645 / 32])"
    by code_simp
  then show ?thesis by simp
qed

text \<open>
  C8, amended: for every valid input and every segment \<open>i\<close> whose two end derivatives lie
  between \<open>0\<close> and three times the secant slope \<open>m_i\<close> (both signs of \<open>m_i\<close>), the value
  interpolated at a query strictly between \<open>x_i\<close> and \<open>x_{i+1}\<close> lies within
  \<open>[min(y_i, y_{i+1}), max(y_i, y_{i+1})]\<close>, with no tolerance.
\<close>

theorem bounded_slopes_no_overshoot:
  fixes x y b :: "real list" and q :: real
  assumes "3 \<le> length x" "length y = length x" "sorted_wrt (<) x"
    and "Suc i < length x" and "sample_derivatives x y = Some b"
    and "x ! i < q" "q < x ! Suc i"
  defines "m_i \<equiv> secant_slopes (diff x) y ! i"
  assumes "(0 \<le> b ! i \<and> b ! i \<le> 3 * m_i \<and> 0 \<le> b ! Suc i \<and> b ! Suc i \<le> 3 * m_i)
         \<or> (3 * m_i \<le> b ! i \<and> b ! i \<le> 0 \<and> 3 * m_i \<le> b ! Suc i \<and> b ! Suc i \<le> 0)"
  shows "\<exists>v. interpolate (array1 x) (array1 y) (array1 [q]) = Inr (array1 [v])
           \<and> min (y ! i) (y ! Suc i) \<le> v \<and> v \<le> max (y ! i) (y ! Suc i)"
proof -
  define c_i where "c_i = sample_c x y b ! i"
  define d_i where "d_i = sample_d x y b ! i"
  define dx_i where "dx_i = x ! Suc i - x ! i"
  define t where "t = q - x ! i"
  define p where "p = b ! i * t + c_i * t ^ 2 + d_i * t ^ 3"
  note v = assms(1-3)
  note facts = segment_facts [OF v assms(4,5)]
  have dx: "0 < dx_i" and m: "m_i = (y ! Suc i - y ! i) / dx_i"
    and c: "c_i = (3 * m_i - 2 * b ! i - b ! Suc i) / dx_i"
    and d: "d_i = (b ! i + b ! Suc i - 2 * m_i) / dx_i ^ 2"
    using facts unfolding dx_i_def m_i_def c_i_def d_i_def by simp_all
  have mdx: "m_i * dx_i = y ! Suc i - y ! i" using dx by (simp add: m)
  have t: "0 \<le> t" "t \<le> dx_i" using assms(6,7) by (simp_all add: t_def dx_i_def)
  have seg: "claimed_segment x q = i"
    using assms(3,4,6,7) by (intro segment_between) simp_all
  have sorted: "sorted x" using assms(3) by (simp add: strict_sorted_imp_sorted)
  have "x ! 0 \<le> x ! i" using sorted assms(4) by (simp add: sorted_nth_mono)
  moreover have "x \<noteq> []" using assms(4) by auto
  then have "x ! Suc i \<le> last x"
    using sorted assms(4) by (simp add: last_conv_nth sorted_nth_mono)
  ultimately have dom: "\<forall>q' \<in> set [q]. x ! 0 \<le> q' \<and> q' \<le> last x"
    using assms(6,7) by simp
  have "interpolate (array1 x) (array1 y) (array1 [q])
      = Inr (array1 [claimed_value x y b (sample_c x y b) (sample_d x y b) (claimed_segment x q) q])"
    using interpolate_valid [OF v dom assms(5)] by simp
  moreover have "claimed_value x y b (sample_c x y b) (sample_d x y b) (claimed_segment x q) q
      = y ! i + p"
    by (simp add: claimed_value_cubic seg segment_cubic_def p_def c_i_def d_i_def t_def)
  ultimately have res: "interpolate (array1 x) (array1 y) (array1 [q]) = Inr (array1 [y ! i + p])"
    by simp
  have "min (y ! i) (y ! Suc i) \<le> y ! i + p \<and> y ! i + p \<le> max (y ! i) (y ! Suc i)"
    using assms(9)
  proof
    assume "0 \<le> b ! i \<and> b ! i \<le> 3 * m_i \<and> 0 \<le> b ! Suc i \<and> b ! Suc i \<le> 3 * m_i"
    then have "0 \<le> p" "p \<le> m_i * dx_i"
      unfolding p_def using cubic_within_increasing [OF dx t _ _ _ _ c d] by blast+
    then show ?thesis using mdx by simp
  next
    assume "3 * m_i \<le> b ! i \<and> b ! i \<le> 0 \<and> 3 * m_i \<le> b ! Suc i \<and> b ! Suc i \<le> 0"
    then have "m_i * dx_i \<le> p" "p \<le> 0"
      unfolding p_def using cubic_within_decreasing [OF dx t _ _ _ _ c d] by blast+
    then show ?thesis using mdx by simp
  qed
  with res show ?thesis by blast
qed

theorem bounded_slopes_no_overshoot_witness:
  "3 \<le> length [0, 1, 2, 3, 4 :: real]
   \<and> length [0, 1, 3, 4, 6 :: real] = length [0, 1, 2, 3, 4 :: real]
   \<and> sorted_wrt (<) [0, 1, 2, 3, 4 :: real] \<and> Suc 1 < length [0, 1, 2, 3, 4 :: real]
   \<and> sample_derivatives [0, 1, 2, 3, 4] [0, 1, 3, 4, 6] = Some [1 / 2, 3 / 2, 3 / 2, 3 / 2, 5 / 2]
   \<and> secant_slopes (diff [0, 1, 2, 3, 4]) [0, 1, 3, 4, 6] ! 1 = 2
   \<and> [0, 1, 2, 3, 4] ! 1 < (3 / 2 :: real) \<and> (3 / 2 :: real) < [0, 1, 2, 3, 4] ! Suc 1
   \<and> interpolate (array1 [0, 1, 2, 3, 4]) (array1 [0, 1, 3, 4, 6]) (array1 [3 / 2])
        = Inr (array1 [2])
   \<and> (\<exists>v. interpolate (array1 [0, 1, 2, 3, 4]) (array1 [0, 1, 3, 4, 6]) (array1 [3 / 2])
              = Inr (array1 [v])
          \<and> min ([0, 1, 3, 4, 6] ! 1) ([0, 1, 3, 4, 6] ! Suc 1) \<le> v
          \<and> v \<le> max ([0, 1, 3, 4, 6] ! 1) ([0, 1, 3, 4, 6] ! Suc 1))"
proof -
  have h: "3 \<le> length [0, 1, 2, 3, 4 :: real]"
    "length [0, 1, 3, 4, 6 :: real] = length [0, 1, 2, 3, 4 :: real]"
    "sorted_wrt (<) [0, 1, 2, 3, 4 :: real]" "Suc 1 < length [0, 1, 2, 3, 4 :: real]"
    by simp_all
  have b: "sample_derivatives [0, 1, 2, 3, 4] [0, 1, 3, 4, 6]
      = Some [1 / 2, 3 / 2, 3 / 2, 3 / 2, 5 / 2]"
    by code_simp
  have m: "secant_slopes (diff [0, 1, 2, 3, 4]) [0, 1, 3, 4, 6] ! 1 = 2"
    by code_simp
  have q: "[0, 1, 2, 3, 4] ! 1 < (3 / 2 :: real)" "(3 / 2 :: real) < [0, 1, 2, 3, 4] ! Suc 1"
    by simp_all
  have s: "(0 \<le> [1 / 2, 3 / 2, 3 / 2, 3 / 2, 5 / 2 :: real] ! 1
        \<and> [1 / 2, 3 / 2, 3 / 2, 3 / 2, 5 / 2 :: real] ! 1
             \<le> 3 * secant_slopes (diff [0, 1, 2, 3, 4]) [0, 1, 3, 4, 6] ! 1
        \<and> 0 \<le> [1 / 2, 3 / 2, 3 / 2, 3 / 2, 5 / 2 :: real] ! Suc 1
        \<and> [1 / 2, 3 / 2, 3 / 2, 3 / 2, 5 / 2 :: real] ! Suc 1
             \<le> 3 * secant_slopes (diff [0, 1, 2, 3, 4]) [0, 1, 3, 4, 6] ! 1)
     \<or> (3 * secant_slopes (diff [0, 1, 2, 3, 4]) [0, 1, 3, 4, 6] ! 1
             \<le> [1 / 2, 3 / 2, 3 / 2, 3 / 2, 5 / 2 :: real] ! 1
        \<and> [1 / 2, 3 / 2, 3 / 2, 3 / 2, 5 / 2 :: real] ! 1 \<le> (0 :: real)
        \<and> 3 * secant_slopes (diff [0, 1, 2, 3, 4]) [0, 1, 3, 4, 6] ! 1
             \<le> [1 / 2, 3 / 2, 3 / 2, 3 / 2, 5 / 2 :: real] ! Suc 1
        \<and> [1 / 2, 3 / 2, 3 / 2, 3 / 2, 5 / 2 :: real] ! Suc 1 \<le> (0 :: real))"
    unfolding m by simp
  have v: "interpolate (array1 [0, 1, 2, 3, 4]) (array1 [0, 1, 3, 4, 6]) (array1 [3 / 2])
        = Inr (array1 [2])"
    by code_simp
  from bounded_slopes_no_overshoot [OF h b q s] h b m q v show ?thesis by blast
qed

subsection \<open>Arrays that are not one-dimensional\<close>

text \<open>
  C9 as stated fails for \<open>y\<close>: a two-dimensional \<open>y\<close> raises \<open>NotImplementedError\<close>, not the
  \<open>ValueError\<close> of the other checks.
\<close>

theorem two_dimensional_y:
  "interpolate (array1 [0, 1, 2]) \<lparr>shape = [3, 1], data = [0, 0, 1]\<rparr> (array1 [1 / 2])
     = Inl (NotImplementedError ''implemented in C extension module'')
   \<and> interpolate (array1 [0, 1, 2]) \<lparr>shape = [3, 1], data = [0, 0, 1]\<rparr> (array1 [1 / 2])
     \<noteq> Inl (ValueError ''x-arrays must be one dimensional'')"
  by (simp add: interpolate_def interpolate_py_def ndim_def array1_def)

text \<open>
  C9, amended: when \<open>y\<close> is not one-dimensional (or \<open>axis\<close> or \<open>out\<close> is given) the function
  raises \<open>NotImplementedError\<close>, and this check comes first; when \<open>y\<close> is one-dimensional
  and \<open>x\<close> or \<open>x_new\<close> is not, it raises \<open>ValueError\<close>, the kind of the other precondition
  checks. Both are raised before anything is computed.
\<close>

theorem shape_errors:
  "(axis \<noteq> - 1 \<or> out \<noteq> None \<or> ndim y \<noteq> 1 \<longrightarrow>
      interpolate_py x y xi axis out
        = Inl (NotImplementedError ''implemented in C extension module''))
   \<and> (ndim y \<noteq> 1 \<longrightarrow>
      interpolate x y xi = Inl (NotImplementedError ''implemented in C extension module''))
   \<and> (ndim y = 1 \<and> (ndim x \<noteq> 1 \<or> ndim xi \<noteq> 1) \<longrightarrow>
      interpolate x y xi = Inl (ValueError ''x-arrays must be one dimensional''))"
  by (simp add: interpolate_def interpolate_py_def)

theorem shape_errors_witness:
  "interpolate \<lparr>shape = [3, 1], data = [0, 1, 2]\<rparr> (array1 [0, 0, 1]) (array1 [1 / 2])
     = Inl (ValueError ''x-arrays must be one dimensional'')
   \<and> interpolate (array1 [0, 1, 2]) (array1 [0, 0, 1]) \<lparr>shape = [], data = [1 / 2]\<rparr>
     = Inl (ValueError ''x-arrays must be one dimensional'')
   \<and> interpolate \<lparr>shape = [3, 1], data = [0, 1, 2]\<rparr> \<lparr>shape = [1, 3], data = [0, 0, 1]\<rparr>
        (array1 [1 / 2])
     = Inl (NotImplementedError ''implemented in C extension module'')"
proof -
  have "interpolate \<lparr>shape = [3, 1], data = [0, 1, 2]\<rparr> (array1 [0, 0, 1]) (array1 [1 / 2])
     = Inl (ValueError ''x-arrays must be one dimensional'')"
    using shape_errors [of "- 1" None "array1 [0, 0, 1]" "\<lparr>shape = [3, 1], data = [0, 1, 2]\<rparr>"
        "array1 [1 / 2]"]
    by (simp add: ndim_def array1_def)
  moreover have "interpolate (array1 [0, 1, 2]) (array1 [0, 0, 1]) \<lparr>shape = [], data = [1 / 2]\<rparr>
     = Inl (ValueError ''x-arrays must be one dimensional'')"
    using shape_errors [of "- 1" None "array1 [0, 0, 1]" "array1 [0, 1, 2]"
        "\<lparr>shape = [], data = [1 / 2]\<rparr>"]
    by (simp add: ndim_def array1_def)
  moreover have "interpolate \<lparr>shape = [3, 1], data = [0, 1, 2]\<rparr>
        \<lparr>shape = [1, 3], data = [0, 0, 1]\<rparr> (array1 [1 / 2])
     = Inl (NotImplementedError ''implemented in C extension module'')"
    using shape_errors [of "- 1" None "\<lparr>shape = [1, 3], data = [0, 0, 1]\<rparr>"
        "\<lparr>shape = [3, 1], data = [0, 1, 2]\<rparr>" "array1 [1 / 2]"]
    by (simp add: ndim_def)
  ultimately show ?thesis by blast
qed

subsection \<open>Shape of the output\<close>

text \<open>
  C10: for every valid input the output has the length of \<open>x_new\<close>, position \<open>j\<close> holds the
  value the function returns for the single query \<open>x_new[j]\<close>, and an empty \<open>x_new\<close> yields an
  empty output and no error.
\<close>

theorem output_order:
  assumes "3 \<le> length x" "length y = length x" "sorted_wrt (<) x"
    and "\<forall>q \<in> set xi. x ! 0 \<le> q \<and> q \<le> last x"
  shows "interpolate (array1 x) (array1 y) (array1 []) = Inr (array1 [])
       \<and> (\<exists>out. interpolate (array1 x) (array1 y) (array1 xi) = Inr (array1 out)
             \<and> length out = length xi
             \<and> (\<forall>j < length xi.
                   interpolate (array1 x) (array1 y) (array1 [xi ! j]) = Inr (array1 [out ! j])))"
proof -
  obtain b where b: "sample_derivatives x y = Some b"
    using sample_derivatives_defined [OF assms(1,2)] by blast
  let ?f = "\<lambda>q. claimed_value x y b (sample_c x y b) (sample_d x y b) (claimed_segment x q) q"
  have general: "interpolate (array1 x) (array1 y) (array1 qs) = Inr (array1 (map ?f qs))"
    if "\<forall>q \<in> set qs. x ! 0 \<le> q \<and> q \<le> last x" for qs
    using assms(1-3) that b by (rule interpolate_valid)
  have empty: "interpolate (array1 x) (array1 y) (array1 []) = Inr (array1 [])"
    using general [of "[]"] by simp
  have single: "interpolate (array1 x) (array1 y) (array1 [xi ! j]) = Inr (array1 [map ?f xi ! j])"
    if "j < length xi" for j
    using general [of "[xi ! j]"] assms(4) that by simp
  have "interpolate (array1 x) (array1 y) (array1 xi) = Inr (array1 (map ?f xi))
      \<and> length (map ?f xi) = length xi
      \<and> (\<forall>j < length xi.
            interpolate (array1 x) (array1 y) (array1 [xi ! j]) = Inr (array1 [map ?f xi ! j]))"
    using general [OF assms(4)] single by simp
  then show ?thesis using empty by blast
qed

theorem output_order_witness:
  "3 \<le> length [0, 1, 3, 4 :: real] \<and> length [0, 2, 3, 7 :: real] = length [0, 1, 3, 4 :: real]
   \<and> sorted_wrt (<) [0, 1, 3, 4 :: real]
   \<and> list_all (\<lambda>q. [0, 1, 3, 4] ! 0 \<le> q \<and> q \<le> last [0, 1, 3, 4]) [5 / 2, 1 / 2 :: real]
   \<and> interpolate (array1 [0, 1, 3, 4]) (array1 [0, 2, 3, 7]) (array1 []) = Inr (array1 [])
   \<and> interpolate (array1 [0, 1, 3, 4]) (array1 [0, 2, 3, 7]) (array1 [5 / 2, 1 / 2])
        = Inr (array1 [817 / 320, 23 / 20])"
proof -
  have h: "3 \<le> length [0, 1, 3, 4 :: real]"
    "length [0, 2, 3, 7 :: real] = length [0, 1, 3, 4 :: real]"
    "sorted_wrt (<) [0, 1, 3, 4 :: real]"
    by simp_all
  have d: "\<forall>q \<in> set [5 / 2, 1 / 2 :: real]. [0, 1, 3, 4] ! 0 \<le> q \<and> q \<le> last [0, 1, 3, 4]"
    by simp
  have d': "list_all (\<lambda>q. [0, 1, 3, 4] ! 0 \<le> q \<and> q \<le> last [0, 1, 3, 4]) [5 / 2, 1 / 2 :: real]"
    by simp
  have v: "interpolate (array1 [0, 1, 3, 4]) (array1 [0, 2, 3, 7]) (array1 [5 / 2, 1 / 2])
        = Inr (array1 [817 / 320, 23 / 20])"
    by code_simp
  from output_order [OF h d] h d' v show ?thesis by blast
qed

end
